theory Spec2Isabelle
  imports Complex_Main "HOL-Library.Word" "HOL-Library.Sublist" "HOL-Library.Log_Nat"
    "HOL-Library.AList"
begin

section \<open>Data model of vsphere-influxdb.go\<close>

text \<open>
  Go's \<open>int64\<close> and \<open>int32\<close> are machine words: \<open>+\<close> wraps around, and the signed
  reading of a word is \<open>sint\<close>. The comparisons \<open>i >= 0\<close>, \<open>i > 0\<close>, \<open>i < min\<close> of the
  source are comparisons of the signed readings.
\<close>

type_synonym int64 = "64 word"
type_synonym int32 = "32 word"

text \<open>
  The structs of the program and the parts of the vSphere API types that it reads.
  A \<open>ManagedObjectReference\<close> is a value type, compared by its two fields.
\<close>

record ManagedObjectReference =
  Type :: string
  Value :: string

record MetricDef =
  Metric :: string
  Instances :: string
  Key :: int32

text \<open>One entry of \<open>Configuration.Metrics\<close>.\<close>

record Metric =
  ObjectType :: "string list"
  Definition :: "MetricDef list"

record MetricGroup =
  ObjectType :: string
  Metrics :: "MetricDef list"
  Mor :: "ManagedObjectReference list"

text \<open>
  What \<open>Init\<close> reads of a \<open>types.PerfCounterInfo\<close>: the keys of its group and name
  descriptions, the printed rollup type and the counter key.
\<close>

record PerfCounterInfo =
  GroupInfo_Key :: string
  NameInfo_Key :: string
  RollupType :: string
  Key :: int32

record PerfMetricId =
  CounterId :: int32
  Instance :: string

text \<open>
  Times are counted in seconds; only differences of times occur. (A \<open>time.Duration\<close> is
  an \<open>int64\<close> of nanoseconds, so this is the arithmetic of the source for intervals up
  to some 292 years.)
\<close>

record PerfQuerySpec =
  Entity :: ManagedObjectReference
  StartTime :: int
  EndTime :: int
  MetricId :: "PerfMetricId list"
  IntervalId :: int32

section \<open>\<open>VCenter.Init\<close>: resolving the declared metrics against the counter catalog\<close>

definition perf_identifier :: "PerfCounterInfo \<Rightarrow> string" where
  "perf_identifier perf = GroupInfo_Key perf @ ''.'' @ NameInfo_Key perf @ ''.'' @ RollupType perf"

text \<open>
  The loop over \<open>vcenter.MetricGroups\<close> with its flag \<open>added\<close>: the definition is
  appended to the first group of the object type, and a new group is appended to the
  list when the loop ends without having found one.
\<close>

fun add_metricd :: "MetricDef \<Rightarrow> string \<Rightarrow> MetricGroup list \<Rightarrow> MetricGroup list" where
  "add_metricd metricd mtype [] = [\<lparr>ObjectType = mtype, Metrics = [metricd], Mor = []\<rparr>]"
| "add_metricd metricd mtype (metricgroup # groups) =
     (if MetricGroup.ObjectType metricgroup = mtype
      then metricgroup\<lparr>Metrics := Metrics metricgroup @ [metricd]\<rparr> # groups
      else metricgroup # add_metricd metricd mtype groups)"

text \<open>The three nested loops inside the loop over the catalog, innermost first.\<close>

definition Init_metricdef ::
  "PerfCounterInfo \<Rightarrow> Metric \<Rightarrow> MetricGroup list \<Rightarrow> MetricDef \<Rightarrow> MetricGroup list" where
  "Init_metricdef perf metric groups metricdef =
     (if MetricDef.Metric metricdef = perf_identifier perf
      then foldl (\<lambda>gs mtype.
                    add_metricd \<lparr>Metric = MetricDef.Metric metricdef,
                                 Instances = Instances metricdef,
                                 Key = PerfCounterInfo.Key perf\<rparr> mtype gs)
             groups (Metric.ObjectType metric)
      else groups)"

definition Init_metric :: "PerfCounterInfo \<Rightarrow> MetricGroup list \<Rightarrow> Metric \<Rightarrow> MetricGroup list" where
  "Init_metric perf groups metric = foldl (Init_metricdef perf metric) groups (Definition metric)"

definition Init_perf :: "Metric list \<Rightarrow> MetricGroup list \<Rightarrow> PerfCounterInfo \<Rightarrow> MetricGroup list" where
  "Init_perf metrics groups perf = foldl (Init_metric perf) groups metrics"

text \<open>
  \<open>Init\<close> returns early, leaving the groups as they are, when the connection or the
  retrieval of the performance manager fails: the catalog is then \<open>None\<close>. The first
  argument is \<open>vcenter.MetricGroups\<close> before the call, the result is its value after.
\<close>

definition Init :: "MetricGroup list \<Rightarrow> Metric list \<Rightarrow> PerfCounterInfo list option \<Rightarrow> MetricGroup list" where
  "Init groups metrics perfCounter =
     (case perfCounter of None \<Rightarrow> groups
      | Some catalog \<Rightarrow> foldl (Init_perf metrics) groups catalog)"

text \<open>
  For the statement about \<open>Init\<close>: the group of an object type is the first group of
  that type, \<open>group_metrics\<close> are its definitions (none when there is no such group), and
  \<open>resolved\<close> lists, in the order of the loops, the definition made for every catalog
  entry and every declared metric of the same name, once for each time the declaration
  names the object type.
\<close>

definition group_metrics :: "string \<Rightarrow> MetricGroup list \<Rightarrow> MetricDef list" where
  "group_metrics t groups =
     (case find (\<lambda>g. MetricGroup.ObjectType g = t) groups of None \<Rightarrow> [] | Some g \<Rightarrow> Metrics g)"

definition resolved_metricdef ::
  "string \<Rightarrow> PerfCounterInfo \<Rightarrow> Metric \<Rightarrow> MetricDef \<Rightarrow> MetricDef list" where
  "resolved_metricdef t perf metric metricdef =
     (if MetricDef.Metric metricdef = perf_identifier perf
      then map (\<lambda>mtype. \<lparr>Metric = MetricDef.Metric metricdef,
                           Instances = Instances metricdef,
                           Key = PerfCounterInfo.Key perf\<rparr>)
             (filter (\<lambda>mtype. mtype = t) (Metric.ObjectType metric))
      else [])"

definition resolved :: "string \<Rightarrow> Metric list \<Rightarrow> PerfCounterInfo list \<Rightarrow> MetricDef list" where
  "resolved t metrics catalog =
     concat (map (\<lambda>perf.
       concat (map (\<lambda>metric.
         concat (map (resolved_metricdef t perf metric) (Definition metric)))
       metrics))
     catalog)"

text \<open>An example: a catalog of two counters and a declaration that names one of them.\<close>

definition example_catalog :: "PerfCounterInfo list" where
  "example_catalog =
     [\<lparr>GroupInfo_Key = ''cpu'', NameInfo_Key = ''usage'', RollupType = ''average'', Key = 2\<rparr>,
      \<lparr>GroupInfo_Key = ''mem'', NameInfo_Key = ''usage'', RollupType = ''average'', Key = 24\<rparr>]"

definition example_metrics :: "Metric list" where
  "example_metrics =
     [\<lparr>Metric.ObjectType = [''VirtualMachine'', ''HostSystem''],
       Definition = [\<lparr>Metric = ''cpu.usage.average'', Instances = ''*'', Key = 0\<rparr>,
                     \<lparr>Metric = ''net.usage.average'', Instances = '''', Key = 0\<rparr>]\<rparr>]"

definition example_groups :: "MetricGroup list" where
  "example_groups =
     [\<lparr>MetricGroup.ObjectType = ''VirtualMachine'',
       Metrics = [\<lparr>Metric = ''cpu.usage.average'', Instances = ''*'', Key = 2\<rparr>], Mor = []\<rparr>,
      \<lparr>MetricGroup.ObjectType = ''HostSystem'',
       Metrics = [\<lparr>Metric = ''cpu.usage.average'', Instances = ''*'', Key = 2\<rparr>], Mor = []\<rparr>]"

section \<open>\<open>VCenter.Query\<close>: the query batch\<close>

text \<open>
  The object types asked of every container view: those of the groups, then the type of
  the clusters.
\<close>

definition objectTypes :: "MetricGroup list \<Rightarrow> string list" where
  "objectTypes groups = map MetricGroup.ObjectType groups @ [''ClusterComputeResource'']"

text \<open>
  The loop that sorts the collected references: virtual machines and hosts make the new
  list \<open>mors\<close>, clusters are kept apart and every other type is left out.
\<close>

definition new_mors :: "ManagedObjectReference list \<Rightarrow> ManagedObjectReference list" where
  "new_mors mors = filter (\<lambda>mor. Type mor = ''VirtualMachine'' \<or> Type mor = ''HostSystem'') mors"

text \<open>The inner loops of the query builder for one object: \<open>metricIds\<close>.\<close>

fun metricIds :: "MetricGroup list \<Rightarrow> ManagedObjectReference \<Rightarrow> PerfMetricId list" where
  "metricIds [] mor = []"
| "metricIds (metricgroup # groups) mor =
     (if MetricGroup.ObjectType metricgroup = Type mor
      then map (\<lambda>metricdef. \<lparr>CounterId = MetricDef.Key metricdef, Instance = Instances metricdef\<rparr>)
             (Metrics metricgroup)
      else []) @ metricIds groups mor"

text \<open>
  The loop over \<open>mors\<close>. \<open>now\<close> is \<open>time.Now()\<close> and \<open>Interval\<close> is \<open>config.Interval\<close>.
\<close>

fun queries :: "MetricGroup list \<Rightarrow> int \<Rightarrow> int \<Rightarrow> ManagedObjectReference list \<Rightarrow> PerfQuerySpec list" where
  "queries groups now Interval [] = []"
| "queries groups now Interval (mor # mors) =
     \<lparr>Entity = mor, StartTime = now - 1 - Interval, EndTime = now - 1,
      MetricId = metricIds groups mor, IntervalId = 20\<rparr> # queries groups now Interval mors"

text \<open>
  The query batch of \<open>Query\<close>, from the references that the container views returned:
  \<open>view\<close> is the list \<open>mors\<close> as the loop over the datacenters leaves it, the views
  having been asked for \<open>objectTypes\<close>. The references are sorted, and the queries are
  built for the new list.
\<close>

definition Query_queries ::
  "MetricGroup list \<Rightarrow> int \<Rightarrow> int \<Rightarrow> ManagedObjectReference list \<Rightarrow> PerfQuerySpec list" where
  "Query_queries groups now Interval view = queries groups now Interval (new_mors view)"

text \<open>An example: a datastore, with a group of its own type.\<close>

definition example_datastore :: ManagedObjectReference where
  "example_datastore = \<lparr>Type = ''Datastore'', Value = ''datastore-11''\<rparr>"

definition example_datastore_group :: MetricGroup where
  "example_datastore_group =
     \<lparr>MetricGroup.ObjectType = ''Datastore'',
      Metrics = [\<lparr>Metric = ''datastore.read.average'', Instances = ''*'', Key = 3\<rparr>],
      Mor = []\<rparr>"

definition example_cluster :: ManagedObjectReference where
  "example_cluster = \<lparr>Type = ''ClusterComputeResource'', Value = ''domain-c7''\<rparr>"

definition example_vm :: ManagedObjectReference where
  "example_vm = \<lparr>Type = ''VirtualMachine'', Value = ''vm-7''\<rparr>"

section \<open>Series reductions: \<open>min\<close>, \<open>max\<close>, \<open>sum\<close>\<close>

text \<open>
  \<open>func min(n ...int64) int64\<close>: the loop variable \<open>min\<close> starts at \<open>-1\<close> and the body
  is run for every sample in order. \<open>min_loop\<close> is that loop, with the variable as
  accumulator.
\<close>

fun min_loop :: "int64 \<Rightarrow> int64 list \<Rightarrow> int64" where
  "min_loop m [] = m"
| "min_loop m (i # n) =
     min_loop (if 0 \<le> sint i then (if m = - 1 then i else if sint i < sint m then i else m)
               else m) n"

definition min_i64 :: "int64 list \<Rightarrow> int64" where
  "min_i64 n = min_loop (- 1) n"

fun max_loop :: "int64 \<Rightarrow> int64 list \<Rightarrow> int64" where
  "max_loop m [] = m"
| "max_loop m (i # n) =
     max_loop (if 0 \<le> sint i then (if m = - 1 then i else if sint m < sint i then i else m)
               else m) n"

definition max_i64 :: "int64 list \<Rightarrow> int64" where
  "max_i64 n = max_loop (- 1) n"

fun sum_loop :: "int64 \<Rightarrow> int64 list \<Rightarrow> int64" where
  "sum_loop tot [] = tot"
| "sum_loop tot (i # n) = sum_loop (if 0 < sint i then tot + i else tot) n"

definition sum_i64 :: "int64 list \<Rightarrow> int64" where
  "sum_i64 n = sum_loop 0 n"

section \<open>The \<open>float64\<close> arithmetic used by \<open>average\<close>\<close>

text \<open>
  \<open>average\<close> leaves the integers: it converts \<open>total\<close> and \<open>count\<close> to \<open>float64\<close>,
  divides, adds \<open>.5\<close>, takes \<open>math.Floor\<close> and converts back to \<open>int64\<close>. The model
  follows IEEE 754 binary64 with the default rounding (to nearest, ties to even): a finite
  value is the rational number it denotes, and every operation rounds the exact result to
  the nearest value with a 53-bit significand. The sign of a zero is not represented:
  the only divisor of the program is a converted integer, which is never the negative
  zero, and the conversion to \<open>int64\<close> does not see the sign of a zero.
\<close>

datatype f64 = Fin rat | PInf | NInf | NaN

text \<open>Rounding of a rational to the nearest integer, ties to the even one.\<close>

definition rne :: "rat \<Rightarrow> int" where
  "rne q = (let f = \<lfloor>q\<rfloor>; d = q - of_int f in
            if d < 1 / 2 then f else if 1 / 2 < d then f + 1
            else if even f then f else f + 1)"

text \<open>The binary exponent \<open>\<lfloor>log\<^sub>2 x\<rfloor>\<close> of a positive rational.\<close>

definition ilog2 :: "rat \<Rightarrow> int" where
  "ilog2 x = (if 1 \<le> x then bitlen \<lfloor>x\<rfloor> - 1 else - bitlen (\<lceil>1 / x\<rceil> - 1))"

text \<open>
  \<open>round_f64 x\<close> is the binary64 value nearest to the exact result \<open>x\<close>: the spacing of
  the values around \<open>x\<close> is \<open>2 powi (e - 52)\<close> for the exponent \<open>e\<close> of \<open>x\<close>, not
  below the exponent \<open>-1022\<close> of the subnormal numbers, and a result of magnitude
  \<open>2 powi 1024\<close> or more overflows to an infinity.
\<close>

definition round_f64 :: "rat \<Rightarrow> f64" where
  "round_f64 x =
     (if x = 0 then Fin 0
      else let e = max (ilog2 \<bar>x\<bar>) (- 1022) - 52;
               y = of_int (rne (x / 2 powi e)) * 2 powi e
           in if 2 powi 1024 \<le> \<bar>y\<bar> then (if 0 < x then PInf else NInf) else Fin y)"

text \<open>\<open>float64(i)\<close> for an \<open>int64\<close> value \<open>i\<close>.\<close>

definition f64_of_int64 :: "int64 \<Rightarrow> f64" where
  "f64_of_int64 i = round_f64 (of_int (sint i))"

text \<open>
  \<open>a / b\<close> on \<open>float64\<close>. A finite non-zero value over zero is an infinity, zero over
  zero and infinity over infinity are NaN; no exception is raised.
\<close>

fun f64_div :: "f64 \<Rightarrow> f64 \<Rightarrow> f64" where
  "f64_div NaN b = NaN"
| "f64_div a NaN = NaN"
| "f64_div (Fin a) (Fin b) =
     (if b = 0 then (if a = 0 then NaN else if 0 < a then PInf else NInf)
      else round_f64 (a / b))"
| "f64_div (Fin a) PInf = Fin 0"
| "f64_div (Fin a) NInf = Fin 0"
| "f64_div PInf (Fin b) = (if 0 \<le> b then PInf else NInf)"
| "f64_div NInf (Fin b) = (if 0 \<le> b then NInf else PInf)"
| "f64_div PInf b = NaN"
| "f64_div NInf b = NaN"

fun f64_add :: "f64 \<Rightarrow> f64 \<Rightarrow> f64" where
  "f64_add NaN b = NaN"
| "f64_add a NaN = NaN"
| "f64_add (Fin a) (Fin b) = round_f64 (a + b)"
| "f64_add PInf NInf = NaN"
| "f64_add NInf PInf = NaN"
| "f64_add PInf b = PInf"
| "f64_add NInf b = NInf"
| "f64_add a PInf = PInf"
| "f64_add a NInf = NInf"

text \<open>\<open>math.Floor\<close>: exact on finite values, the identity on infinities and NaN.\<close>

fun f64_floor :: "f64 \<Rightarrow> f64" where
  "f64_floor (Fin a) = Fin (of_int \<lfloor>a\<rfloor>)"
| "f64_floor a = a"

text \<open>
  \<open>int64(f)\<close>: truncation towards zero. The Go specification leaves the result open when
  the value cannot be represented in the target type (NaN, an infinity, a value outside
  the \<open>int64\<close> range): "the conversion succeeds but the result value is implementation-
  dependent". That outcome is \<open>ImplementationDependent\<close>.
\<close>

datatype int64_result = Val int64 | ImplementationDependent

definition trunc :: "rat \<Rightarrow> int" where
  "trunc a = (if 0 \<le> a then \<lfloor>a\<rfloor> else \<lceil>a\<rceil>)"

fun int64_of_f64 :: "f64 \<Rightarrow> int64_result" where
  "int64_of_f64 (Fin a) =
     (if - (2 ^ 63) \<le> trunc a \<and> trunc a < 2 ^ 63 then Val (word_of_int (trunc a))
      else ImplementationDependent)"
| "int64_of_f64 a = ImplementationDependent"

section \<open>Series reduction \<open>average\<close>\<close>

text \<open>
  The loop of \<open>average\<close> with its two variables \<open>total\<close> and \<open>count\<close>, both \<open>int64\<close>.
\<close>

fun average_loop :: "int64 \<times> int64 \<Rightarrow> int64 list \<Rightarrow> int64 \<times> int64" where
  "average_loop (tot, count) [] = (tot, count)"
| "average_loop (tot, count) (i # n) =
     average_loop (if 0 \<le> sint i then (tot + i, count + 1) else (tot, count)) n"

text \<open>\<open>favg := float64(total) / float64(count)\<close>\<close>

definition favg :: "int64 list \<Rightarrow> f64" where
  "favg n = (case average_loop (0, 0) n of
               (tot, count) \<Rightarrow> f64_div (f64_of_int64 tot) (f64_of_int64 count))"

definition average :: "int64 list \<Rightarrow> int64_result" where
  "average n = int64_of_f64 (f64_floor (f64_add (favg n) (Fin (1 / 2))))"

section \<open>\<open>VCenter.Query\<close>: from the returned series to points\<close>

subsection \<open>The string functions of the Go library that the loop calls\<close>

text \<open>
  Go strings are byte sequences, here \<open>string\<close>. \<open>strings.HasSuffix s suf\<close> is
  \<open>suffix suf s\<close>. \<open>Index s substr\<close> is \<open>strings.Index\<close>: the position of the first
  occurrence of \<open>substr\<close> in \<open>s\<close>, or \<open>-1\<close>.
\<close>

fun Index :: "string \<Rightarrow> string \<Rightarrow> int" where
  "Index [] substr = (if substr = [] then 0 else - 1)"
| "Index (c # s) substr =
     (if prefix substr (c # s) then 0
      else let i = Index s substr in if i = - 1 then - 1 else i + 1)"

text \<open>
  \<open>Replace s old new\<close> is \<open>strings.Replace(s, old, new, -1)\<close>: every non-overlapping
  occurrence of \<open>old\<close>, from the left, becomes \<open>new\<close>. For an empty \<open>old\<close> Go inserts
  \<open>new\<close> around every character; the program has an empty \<open>old\<close> only when
  \<open>config.Domain\<close> is empty, and then \<open>new\<close> is empty too, so that \<open>s\<close> is returned
  as it is.
\<close>

fun Replace :: "string \<Rightarrow> string \<Rightarrow> string \<Rightarrow> string" where
  "Replace [] old new = []"
| "Replace (c # s) old new =
     (if old \<noteq> [] \<and> prefix old (c # s)
      then new @ Replace (drop (length old - 1) s) old new
      else c # Replace s old new)"

text \<open>\<open>strings.Split(s, sep)[0]\<close> for a non-empty separator: \<open>s\<close> up to the first \<open>sep\<close>.\<close>

definition Split_0 :: "string \<Rightarrow> string \<Rightarrow> string" where
  "Split_0 s sep = (let i = Index s sep in if i = - 1 then s else take (nat i) s)"

text \<open>A Go map read at a key it does not hold gives the zero value, here the empty string.\<close>

definition str_at :: "('k \<rightharpoonup> string) \<Rightarrow> 'k \<Rightarrow> string" where
  "str_at m k = (case m k of None \<Rightarrow> '''' | Some s \<Rightarrow> s)"

subsection \<open>The variables in scope of the loop over \<open>perfres.Returnval\<close>\<close>

text \<open>
  \<open>strings.ToLower\<close> maps Unicode letters to lower case. It is a parameter of the model,
  so that what is proved holds for the library function whatever its tables are.
  The maps \<open>vm_summary\<close>, \<open>host_summary\<close>, \<open>host_extra_metrics\<close> and \<open>morToName\<close> are
  filled from the inventory before the loop and only read in it.
\<close>

record scope =
  ToLower :: "string \<Rightarrow> string"
  Hostname :: string
  Domain :: string
  morToName :: "ManagedObjectReference \<rightharpoonup> string"
  metricToName :: "int32 \<rightharpoonup> string"
  vm_summary :: "ManagedObjectReference \<rightharpoonup> (string \<rightharpoonup> string)"
  host_summary :: "ManagedObjectReference \<rightharpoonup> (string \<rightharpoonup> string)"
  host_extra_metrics :: "ManagedObjectReference \<rightharpoonup> (string \<rightharpoonup> int64)"

text \<open>The map \<open>metricToName\<close> as the loop over the groups fills it: a later entry wins.\<close>

definition make_metricToName :: "MetricGroup list \<Rightarrow> (int32 \<rightharpoonup> string)" where
  "make_metricToName groups =
     foldl (\<lambda>m metricgroup.
              foldl (\<lambda>m metricdef. m(MetricDef.Key metricdef \<mapsto> MetricDef.Metric metricdef))
                m (Metrics metricgroup))
       Map.empty groups"

subsection \<open>The results of the query\<close>

text \<open>
  \<open>perfres.Returnval\<close> is a list of \<open>BasePerfEntityMetricBase\<close>, each with a list of
  \<open>BasePerfMetricSeries\<close>. The loop asserts the variants \<open>*PerfEntityMetric\<close> and
  \<open>*PerfMetricIntSeries\<close>; on the other variant of either interface the type assertion
  panics.
\<close>

datatype BasePerfMetricSeries =
  PerfMetricIntSeries PerfMetricId "int64 list"
| PerfMetricSeriesCSV PerfMetricId string

datatype BasePerfEntityMetricBase =
  PerfEntityMetric ManagedObjectReference "BasePerfMetricSeries list"
| PerfEntityMetricCSV ManagedObjectReference string

datatype panic = IndexOutOfRange | InterfaceConversion

subsection \<open>One series\<close>

definition metricName_of :: "scope \<Rightarrow> PerfMetricId \<Rightarrow> string" where
  "metricName_of sc mid = ToLower sc (str_at (metricToName sc) (CounterId mid))"

definition influxMetricName_of :: "scope \<Rightarrow> PerfMetricId \<Rightarrow> string" where
  "influxMetricName_of sc mid = Replace (metricName_of sc mid) ''.'' ''_''"

definition measurementName_of :: "scope \<Rightarrow> PerfMetricId \<Rightarrow> string" where
  "measurementName_of sc mid = Split_0 (metricName_of sc mid) ''.''"

definition instanceName_of :: "scope \<Rightarrow> PerfMetricId \<Rightarrow> string" where
  "instanceName_of sc mid =
     (if Index (influxMetricName_of sc mid) ''datastore'' \<noteq> - 1 then ''''
      else ToLower sc (Replace (Instance mid) ''.'' ''_''))"

text \<open>
  The chain of \<open>strings.HasSuffix\<close> tests that sets \<open>value\<close>, which starts at \<open>-1\<close>.
  The branch of \<open>.latest\<close> indexes the samples at \<open>len - 1\<close>, which panics on an empty
  slice.
\<close>

definition series_value :: "string \<Rightarrow> int64 list \<Rightarrow> panic + int64_result" where
  "series_value metricName samples =
     (if suffix ''.average'' metricName then Inr (average samples)
      else if suffix ''.maximum'' metricName then Inr (Val (max_i64 samples))
      else if suffix ''.minimum'' metricName then Inr (Val (min_i64 samples))
      else if suffix ''.latest'' metricName
        then (if samples = [] then Inl IndexOutOfRange else Inr (Val (last samples)))
      else if suffix ''.summation'' metricName then Inr (Val (sum_i64 samples))
      else Inr (Val (- 1)))"

text \<open>
  The maps of one entity; \<open>entity_fields\<close> is the variable \<open>fields\<close>.
  \<open>special_fields\<close> and \<open>special_tags\<close> are three levels of
  maps in the source, keyed by measurement, then \<open>tags["name"]\<close>, then instance; here
  they are keyed by the triple. A level that is missing is created empty before it is
  written (the three \<open>nil\<close> tests), so a triple is absent exactly when its innermost map
  has not been created. \<open>special_fields\<close> is iterated at the end and is kept as a list
  of keys and field maps, in the order in which the keys were first written; Go iterates
  a map in no fixed order.
\<close>

type_synonym special_key = "string \<times> string \<times> string"

record entity_maps =
  entity_fields :: "string \<rightharpoonup> int64_result"
  special_fields :: "(special_key \<times> (string \<rightharpoonup> int64_result)) list"
  special_tags :: "special_key \<rightharpoonup> (string \<rightharpoonup> string)"

definition special_key_of :: "scope \<Rightarrow> (string \<rightharpoonup> string) \<Rightarrow> PerfMetricId \<Rightarrow> special_key" where
  "special_key_of sc tags mid = (measurementName_of sc mid, str_at tags ''name'', instanceName_of sc mid)"

text \<open>
  The writes of the branch for a non-empty instance. \<open>set_special_field\<close> is the
  assignment \<open>special_fields[measurementName][tags["name"]][instanceName][influxMetricName]
  = value\<close>, into a new map when the key has none. \<open>set_special_tags\<close> is the copy of
  \<open>tags\<close> and of the instance into the tags of the key, which start empty when the maps
  of the key have just been created.
\<close>

definition set_special_field ::
  "special_key \<Rightarrow> string \<Rightarrow> int64_result \<Rightarrow> (special_key \<times> (string \<rightharpoonup> int64_result)) list
   \<Rightarrow> (special_key \<times> (string \<rightharpoonup> int64_result)) list" where
  "set_special_field key f v sf =
     AList.update key ((case map_of sf key of None \<Rightarrow> Map.empty | Some m \<Rightarrow> m)(f \<mapsto> v)) sf"

definition set_special_tags ::
  "special_key \<Rightarrow> (string \<rightharpoonup> string) \<Rightarrow> bool \<Rightarrow> (special_key \<rightharpoonup> (string \<rightharpoonup> string))
   \<Rightarrow> (special_key \<rightharpoonup> (string \<rightharpoonup> string))" where
  "set_special_tags key tags created st =
     st(key \<mapsto> ((if created then (case st key of None \<Rightarrow> Map.empty | Some m \<Rightarrow> m)
                   else Map.empty) ++ tags)(''instance'' \<mapsto> snd (snd key)))"

text \<open>The body of the loop over \<open>pem.Value\<close>.\<close>

definition serie_step ::
  "scope \<Rightarrow> (string \<rightharpoonup> string) \<Rightarrow> entity_maps \<Rightarrow> BasePerfMetricSeries \<Rightarrow> panic + entity_maps" where
  "serie_step sc tags maps baseserie =
     (case baseserie of
        PerfMetricSeriesCSV mid csv \<Rightarrow> Inl InterfaceConversion
      | PerfMetricIntSeries mid samples \<Rightarrow>
          (case series_value (metricName_of sc mid) samples of
             Inl p \<Rightarrow> Inl p
           | Inr v \<Rightarrow>
               if instanceName_of sc mid = ''''
               then Inr (maps\<lparr>entity_fields :=
                                 (entity_fields maps)(influxMetricName_of sc mid \<mapsto> v)\<rparr>)
               else
                 let key = special_key_of sc tags mid;
                     created = (map_of (special_fields maps) key \<noteq> None)
                 in Inr (maps\<lparr>special_fields :=
                                 set_special_field key (influxMetricName_of sc mid) v
                                   (special_fields maps),
                               special_tags :=
                                 set_special_tags key tags created (special_tags maps)\<rparr>)))"

fun series_loop ::
  "scope \<Rightarrow> (string \<rightharpoonup> string) \<Rightarrow> entity_maps \<Rightarrow> BasePerfMetricSeries list \<Rightarrow> panic + entity_maps" where
  "series_loop sc tags maps [] = Inr maps"
| "series_loop sc tags maps (baseserie # series) =
     (case serie_step sc tags maps baseserie of
        Inl p \<Rightarrow> Inl p
      | Inr maps' \<Rightarrow> series_loop sc tags maps' series)"

subsection \<open>One entity, and the batch\<close>

text \<open>A point as it is handed to \<open>influxclient.NewPoint\<close>, without its time stamp.\<close>

record Point =
  Measurement :: string
  Tags :: "string \<rightharpoonup> string"
  Fields :: "string \<rightharpoonup> int64_result"

definition summary_of :: "('k \<rightharpoonup> ('a \<rightharpoonup> 'b)) \<Rightarrow> 'k \<Rightarrow> ('a \<rightharpoonup> 'b)" where
  "summary_of m k = (case m k of None \<Rightarrow> Map.empty | Some s \<Rightarrow> s)"

text \<open>The tags of the entity: \<open>host\<close> and \<open>name\<close>, then the two summaries copied over them.\<close>

definition entity_tags :: "scope \<Rightarrow> ManagedObjectReference \<Rightarrow> (string \<rightharpoonup> string)" where
  "entity_tags sc entity =
     [''host'' \<mapsto> Replace (Hostname sc) (Domain sc) '''',
      ''name'' \<mapsto> ToLower sc (Replace (str_at (morToName sc) entity) (Domain sc) '''')]
     ++ summary_of (vm_summary sc) entity ++ summary_of (host_summary sc) entity"

definition special_point :: "entity_maps \<Rightarrow> special_key \<times> (string \<rightharpoonup> int64_result) \<Rightarrow> Point" where
  "special_point maps kv =
     \<lparr>Measurement = fst (fst kv), Tags = summary_of (special_tags maps) (fst kv), Fields = snd kv\<rparr>"

text \<open>
  The body of the loop over \<open>perfres.Returnval\<close>: the points added to the batch for one
  entity, the point of the entity first.
\<close>

definition entity_points :: "scope \<Rightarrow> BasePerfEntityMetricBase \<Rightarrow> panic + Point list" where
  "entity_points sc base =
     (case base of
        PerfEntityMetricCSV entity csv \<Rightarrow> Inl InterfaceConversion
      | PerfEntityMetric entity series \<Rightarrow>
          (case series_loop sc (entity_tags sc entity)
                  \<lparr>entity_fields = Map.empty, special_fields = [], special_tags = Map.empty\<rparr> series of
             Inl p \<Rightarrow> Inl p
           | Inr maps \<Rightarrow>
               Inr (\<lparr>Measurement = ToLower sc (Type entity),
                     Tags = entity_tags sc entity,
                     Fields = entity_fields maps ++
                       (map_option Val \<circ> summary_of (host_extra_metrics sc) entity)\<rparr>
                    # map (special_point maps) (special_fields maps))))"

fun batch_points :: "scope \<Rightarrow> BasePerfEntityMetricBase list \<Rightarrow> panic + Point list" where
  "batch_points sc [] = Inr []"
| "batch_points sc (base # Returnval) =
     (case entity_points sc base of
        Inl p \<Rightarrow> Inl p
      | Inr pts \<Rightarrow> (case batch_points sc Returnval of
                      Inl p \<Rightarrow> Inl p
                    | Inr rest \<Rightarrow> Inr (pts @ rest)))"



text \<open>
  For the statements about the points: what one series contributes when its value is
  computed without a panic, as measurement, instance, field name and value.
\<close>

definition contribution ::
  "scope \<Rightarrow> BasePerfMetricSeries \<Rightarrow> (string \<times> string \<times> string \<times> int64_result) option" where
  "contribution sc baseserie =
     (case baseserie of
        PerfMetricSeriesCSV mid csv \<Rightarrow> None
      | PerfMetricIntSeries mid samples \<Rightarrow>
          (case series_value (metricName_of sc mid) samples of
             Inl p \<Rightarrow> None
           | Inr v \<Rightarrow> Some (measurementName_of sc mid, instanceName_of sc mid,
                             influxMetricName_of sc mid, v)))"

text \<open>
  A lower-casing of the ASCII letters, which sets the bit \<open>0x20\<close> of a capital letter.
  It stands for \<open>strings.ToLower\<close> where the model is run on examples.
\<close>

definition ascii_lower_char :: "char \<Rightarrow> char" where
  "ascii_lower_char c =
     (if 65 \<le> (of_char c :: nat) \<and> (of_char c :: nat) \<le> 90
      then (case c of Char b0 b1 b2 b3 b4 b5 b6 b7 \<Rightarrow> Char b0 b1 b2 b3 b4 True b6 b7)
      else c)"

definition ascii_lower :: "string \<Rightarrow> string" where
  "ascii_lower s = map ascii_lower_char s"

text \<open>
  An example: a virtual machine \<open>Web1\<close> with the counters of the five rollups, a
  datastore counter and a counter of no known rollup.
\<close>

definition example_scope :: scope where
  "example_scope =
     \<lparr>ToLower = ascii_lower, Hostname = ''vc1.example.com'', Domain = ''.example.com'',
      morToName = [example_vm \<mapsto> ''Web1.example.com''],
      metricToName = [1 \<mapsto> ''cpu.usage.average'', 2 \<mapsto> ''disk.usage.average'',
                      3 \<mapsto> ''datastore.read.average'', 4 \<mapsto> ''disk.used.latest'',
                      5 \<mapsto> ''cpu.ready.none''],
      vm_summary = [example_vm \<mapsto> [''datastore'' \<mapsto> ''ds1'', ''esx'' \<mapsto> ''esx1'']],
      host_summary = Map.empty, host_extra_metrics = Map.empty\<rparr>"


section \<open>The samples that take part in a reduction\<close>

text \<open>
  The samples that are not negative, read as integers; the strictly positive samples;
  and the arithmetic mean of a non-empty list of integers rounded by \<open>floor (x + 0.5)\<close>,
  over the exact numbers.
\<close>

definition valid_samples :: "int64 list \<Rightarrow> int list" where
  "valid_samples n = map sint (filter (\<lambda>i. 0 \<le> sint i) n)"

definition positive_samples :: "int64 list \<Rightarrow> int64 list" where
  "positive_samples n = filter (\<lambda>i. 0 < sint i) n"

definition rounded_mean :: "int list \<Rightarrow> int" where
  "rounded_mean xs = \<lfloor>of_int (sum_list xs) / of_int (int (length xs)) + (1 / 2 :: rat)\<rfloor>"

section \<open>An invariant of the maps of the instances\<close>

text \<open>
  Every key of \<open>special_fields\<close> holds a non-empty instance and the name tag of the
  entity, and its tags are the tags of the entity with the instance added.
\<close>

definition special_ok :: "(string \<rightharpoonup> string) \<Rightarrow> entity_maps \<Rightarrow> bool" where
  "special_ok tags maps \<longleftrightarrow>
     (\<forall>key\<in>fst ` set (special_fields maps).
        snd (snd key) \<noteq> '''' \<and> fst (snd key) = str_at tags ''name''
        \<and> special_tags maps key = Some (tags(''instance'' \<mapsto> snd (snd key))))"

section \<open>The example of the specification\<close>

text \<open>
  One virtual machine with \<open>cpu.usage.average\<close> and, for the instances \<open>scsi0\<close> and
  \<open>scsi1\<close>, \<open>disk.usage.average\<close>.
\<close>

definition example_series :: "BasePerfMetricSeries list" where
  "example_series =
     [PerfMetricIntSeries \<lparr>CounterId = 1, Instance = ''''\<rparr> [40, 60],
      PerfMetricIntSeries \<lparr>CounterId = 2, Instance = ''scsi0''\<rparr> [20, 30],
      PerfMetricIntSeries \<lparr>CounterId = 2, Instance = ''scsi1''\<rparr> [5, 15]]"

definition example_tags :: "string \<rightharpoonup> string" where
  "example_tags = [''host'' \<mapsto> ''vc1'', ''name'' \<mapsto> ''web1'',
                   ''datastore'' \<mapsto> ''ds1'', ''esx'' \<mapsto> ''esx1'']"

section \<open>Properties of \<open>min\<close>, \<open>max\<close> and \<open>sum\<close>\<close>

lemma sint_word_of_int_64:
  "- (2 ^ 63) \<le> k \<Longrightarrow> k < 2 ^ 63 \<Longrightarrow> sint (word_of_int k :: 64 word) = k"
  by (simp add: sint_sbintrunc' signed_take_bit_int_eq_self)

lemma word_of_int_sum_sint:
  "(word_of_int (sum_list (map sint xs)) :: 64 word) = sum_list xs"
  by (induction xs) (simp_all add: word_of_int_hom_syms)

lemma set_valid_samples: "set (valid_samples n) = sint ` {i \<in> set n. 0 \<le> sint i}"
  by (auto simp: valid_samples_def)

lemma valid_samples_empty_iff: "valid_samples n = [] \<longleftrightarrow> (\<forall>i\<in>set n. sint i < 0)"
  by (auto simp: valid_samples_def filter_empty_conv not_le)

text \<open>Once the variable holds a sample it is never \<open>-1\<close> again, and it only decreases.\<close>

lemma min_loop_mem:
  "0 \<le> sint m \<Longrightarrow> min_loop m n \<in> insert m {i \<in> set n. 0 \<le> sint i}"
proof (induction n arbitrary: m)
  case Nil
  then show ?case by simp
next
  case (Cons i n)
  have neq: "m \<noteq> - 1" using Cons.prems by auto
  show ?case
    using Cons.IH[of i] Cons.IH[of m] Cons.prems neq by (auto split: if_splits)
qed

lemma min_loop_le_acc: "0 \<le> sint m \<Longrightarrow> sint (min_loop m n) \<le> sint m"
proof (induction n arbitrary: m)
  case Nil
  then show ?case by simp
next
  case (Cons i n)
  have neq: "m \<noteq> - 1" using Cons.prems by auto
  show ?case
    using Cons.IH[of i] Cons.IH[of m] Cons.prems neq by (auto split: if_splits)
qed

lemma min_loop_lower:
  "0 \<le> sint m \<Longrightarrow> i \<in> set n \<Longrightarrow> 0 \<le> sint i \<Longrightarrow> sint (min_loop m n) \<le> sint i"
proof (induction n arbitrary: m)
  case Nil
  then show ?case by simp
next
  case (Cons j n)
  have neq: "m \<noteq> - 1" using Cons.prems by auto
  show ?case
    using Cons.IH[of j] Cons.IH[of m] Cons.prems neq
      min_loop_le_acc[of j n] min_loop_le_acc[of m n]
    by (auto split: if_splits)
qed

lemma min_loop_none: "\<forall>i\<in>set n. sint i < 0 \<Longrightarrow> min_loop (- 1) n = - 1"
  by (induction n) auto

lemma min_loop_start_mem:
  "i \<in> set n \<Longrightarrow> 0 \<le> sint i \<Longrightarrow> min_loop (- 1) n \<in> {i \<in> set n. 0 \<le> sint i}"
proof (induction n)
  case Nil
  then show ?case by simp
next
  case (Cons j n)
  show ?case
  proof (cases "0 \<le> sint j")
    case True
    then show ?thesis using min_loop_mem[of j n] by auto
  next
    case False
    then show ?thesis using Cons by auto
  qed
qed

lemma min_loop_start_lower:
  "i \<in> set n \<Longrightarrow> 0 \<le> sint i \<Longrightarrow> sint (min_loop (- 1) n) \<le> sint i"
proof (induction n)
  case Nil
  then show ?case by simp
next
  case (Cons j n)
  show ?case
  proof (cases "0 \<le> sint j")
    case True
    then show ?thesis
      using min_loop_lower[of j i n] min_loop_le_acc[of j n] Cons.prems by auto
  next
    case False
    then show ?thesis using Cons by auto
  qed
qed

lemma min_i64_Min:
  assumes "valid_samples n \<noteq> []"
  shows "sint (min_i64 n) = Min (set (valid_samples n))"
proof -
  obtain i where i: "i \<in> set n" "0 \<le> sint i"
    using assms by (auto simp: valid_samples_empty_iff not_less)
  have "Min (sint ` {i \<in> set n. 0 \<le> sint i}) = sint (min_loop (- 1) n)"
  proof (rule Min_eqI)
    show "finite (sint ` {i \<in> set n. 0 \<le> sint i})" by simp
    show "\<And>y. y \<in> sint ` {i \<in> set n. 0 \<le> sint i} \<Longrightarrow> sint (min_loop (- 1) n) \<le> y"
      using min_loop_start_lower by blast
    show "sint (min_loop (- 1) n) \<in> sint ` {i \<in> set n. 0 \<le> sint i}"
      using min_loop_start_mem[OF i] by blast
  qed
  then show ?thesis by (simp add: min_i64_def set_valid_samples)
qed

text \<open>The same for \<open>max\<close>, where the variable only increases.\<close>

lemma max_loop_mem:
  "0 \<le> sint m \<Longrightarrow> max_loop m n \<in> insert m {i \<in> set n. 0 \<le> sint i}"
proof (induction n arbitrary: m)
  case Nil
  then show ?case by simp
next
  case (Cons i n)
  have neq: "m \<noteq> - 1" using Cons.prems by auto
  show ?case
    using Cons.IH[of i] Cons.IH[of m] Cons.prems neq by (auto split: if_splits)
qed

lemma max_loop_ge_acc: "0 \<le> sint m \<Longrightarrow> sint m \<le> sint (max_loop m n)"
proof (induction n arbitrary: m)
  case Nil
  then show ?case by simp
next
  case (Cons i n)
  have neq: "m \<noteq> - 1" using Cons.prems by auto
  show ?case
    using Cons.IH[of i] Cons.IH[of m] Cons.prems neq by (auto split: if_splits)
qed

lemma max_loop_upper:
  "0 \<le> sint m \<Longrightarrow> i \<in> set n \<Longrightarrow> 0 \<le> sint i \<Longrightarrow> sint i \<le> sint (max_loop m n)"
proof (induction n arbitrary: m)
  case Nil
  then show ?case by simp
next
  case (Cons j n)
  have neq: "m \<noteq> - 1" using Cons.prems by auto
  show ?case
    using Cons.IH[of j] Cons.IH[of m] Cons.prems neq
      max_loop_ge_acc[of j n] max_loop_ge_acc[of m n]
    by (auto split: if_splits)
qed

lemma max_loop_none: "\<forall>i\<in>set n. sint i < 0 \<Longrightarrow> max_loop (- 1) n = - 1"
  by (induction n) auto

lemma max_loop_start_mem:
  "i \<in> set n \<Longrightarrow> 0 \<le> sint i \<Longrightarrow> max_loop (- 1) n \<in> {i \<in> set n. 0 \<le> sint i}"
proof (induction n)
  case Nil
  then show ?case by simp
next
  case (Cons j n)
  show ?case
  proof (cases "0 \<le> sint j")
    case True
    then show ?thesis using max_loop_mem[of j n] by auto
  next
    case False
    then show ?thesis using Cons by auto
  qed
qed

lemma max_loop_start_upper:
  "i \<in> set n \<Longrightarrow> 0 \<le> sint i \<Longrightarrow> sint i \<le> sint (max_loop (- 1) n)"
proof (induction n)
  case Nil
  then show ?case by simp
next
  case (Cons j n)
  show ?case
  proof (cases "0 \<le> sint j")
    case True
    then show ?thesis
      using max_loop_upper[of j i n] max_loop_ge_acc[of j n] Cons.prems by auto
  next
    case False
    then show ?thesis using Cons by auto
  qed
qed

lemma max_i64_Max:
  assumes "valid_samples n \<noteq> []"
  shows "sint (max_i64 n) = Max (set (valid_samples n))"
proof -
  obtain i where i: "i \<in> set n" "0 \<le> sint i"
    using assms by (auto simp: valid_samples_empty_iff not_less)
  have "Max (sint ` {i \<in> set n. 0 \<le> sint i}) = sint (max_loop (- 1) n)"
  proof (rule Max_eqI)
    show "finite (sint ` {i \<in> set n. 0 \<le> sint i})" by simp
    show "\<And>y. y \<in> sint ` {i \<in> set n. 0 \<le> sint i} \<Longrightarrow> y \<le> sint (max_loop (- 1) n)"
      using max_loop_start_upper by blast
    show "sint (max_loop (- 1) n) \<in> sint ` {i \<in> set n. 0 \<le> sint i}"
      using max_loop_start_mem[OF i] by blast
  qed
  then show ?thesis by (simp add: max_i64_def set_valid_samples)
qed

text \<open>
  Claim C8. The maximum and the minimum reduction return the maximum and the minimum of
  the samples that are not negative, and the sentinel \<open>-1\<close> when every sample is
  negative; \<open>maximum([-1,-1]) = -1\<close> and \<open>minimum([5,-1,2]) = 2\<close>.
\<close>

theorem max_min_over_valid_samples:
  "(valid_samples n \<noteq> [] \<longrightarrow>
      sint (max_i64 n) = Max (set (valid_samples n)) \<and>
      sint (min_i64 n) = Min (set (valid_samples n)))
   \<and> (valid_samples n = [] \<longrightarrow> max_i64 n = - 1 \<and> min_i64 n = - 1)"
  using max_i64_Max[of n] min_i64_Min[of n] max_loop_none[of n] min_loop_none[of n]
  by (simp add: max_i64_def min_i64_def valid_samples_empty_iff)

theorem max_min_over_valid_samples_witness:
  "valid_samples [5, - 1, 2] \<noteq> [] \<and> sint (min_i64 [5, - 1, 2]) = 2
   \<and> sint (max_i64 [5, - 1, 2]) = 5
   \<and> valid_samples [- 1, - 1] = [] \<and> max_i64 [- 1, - 1] = - 1 \<and> min_i64 [- 1, - 1] = - 1"
proof -
  have v1: "valid_samples [5, - 1, 2] = [5, 2]" by (simp add: valid_samples_def)
  have v2: "valid_samples [- 1, - 1] = []" by (simp add: valid_samples_def)
  show ?thesis
    using max_min_over_valid_samples[of "[5, - 1, 2]"] max_min_over_valid_samples[of "[- 1, - 1]"]
    by (simp add: v1 v2)
qed

lemma sum_loop_eq: "sum_loop t n = t + sum_list (positive_samples n)"
  by (induction n arbitrary: t) (auto simp: positive_samples_def algebra_simps)

lemma sum_sint_positive_nonneg: "0 \<le> sum_list (map sint (positive_samples n))"
  unfolding positive_samples_def by (induction n) auto

text \<open>
  Claim C9, as the code has it. The summation reduction returns the \<open>int64\<close> sum of the
  strictly positive samples: zero and negative samples add nothing, and the result is
  \<open>0\<close> when no sample is strictly positive; \<open>summation([-5,0,3,4]) = 7\<close>. The additions
  are those of \<open>int64\<close> and wrap around: the result is the sum of the integers when that
  sum is below \<open>2^63\<close>.
\<close>

theorem sum_of_positive_samples:
  "sum_i64 n = sum_list (positive_samples n)
   \<and> (sum_list (map sint (positive_samples n)) < 2 ^ 63 \<longrightarrow>
        sint (sum_i64 n) = sum_list (map sint (positive_samples n)))
   \<and> (positive_samples n = [] \<longrightarrow> sum_i64 n = 0)"
proof -
  have eq: "sum_i64 n = sum_list (positive_samples n)"
    by (simp add: sum_i64_def sum_loop_eq)
  have "sint (sum_i64 n) = sum_list (map sint (positive_samples n))"
    if "sum_list (map sint (positive_samples n)) < 2 ^ 63"
  proof -
    have "sum_i64 n = word_of_int (sum_list (map sint (positive_samples n)))"
      by (simp add: eq word_of_int_sum_sint)
    then show ?thesis
      using that sum_sint_positive_nonneg[of n] by (simp add: sint_word_of_int_64)
  qed
  then show ?thesis using eq by simp
qed

theorem sum_of_positive_samples_witness:
  "positive_samples [- 5, 0, 3, 4] = [3, 4]
   \<and> sum_list (map sint (positive_samples [- 5, 0, 3, 4])) < 2 ^ 63
   \<and> sum_i64 [- 5, 0, 3, 4] = 7 \<and> sint (sum_i64 [- 5, 0, 3, 4]) = 7
   \<and> positive_samples [- 5, 0] = [] \<and> sum_i64 [- 5, 0] = 0"
proof -
  have p1: "positive_samples [- 5, 0, 3, 4] = [3, 4]" by (simp add: positive_samples_def)
  have p2: "positive_samples [- 5, 0] = []" by (simp add: positive_samples_def)
  show ?thesis
    using sum_of_positive_samples[of "[- 5, 0, 3, 4]"] sum_of_positive_samples[of "[- 5, 0]"]
    by (simp add: p1 p2)
qed

text \<open>
  The claim C9 as it is written, for every sequence of samples, fails where the sum of
  the strictly positive samples is not an \<open>int64\<close>: the largest \<open>int64\<close> and \<open>1\<close> are
  both strictly positive, their sum is \<open>2^63\<close>, and the reduction returns \<open>-2^63\<close>.
\<close>

theorem sum_wraps_counterexample:
  "positive_samples [9223372036854775807, 1] = [9223372036854775807, 1]
   \<and> sum_list (map sint (positive_samples [9223372036854775807, 1])) = 9223372036854775808
   \<and> sint (sum_i64 [9223372036854775807, 1]) = - 9223372036854775808
   \<and> sint (sum_i64 [9223372036854775807, 1])
       \<noteq> sum_list (map sint (positive_samples [9223372036854775807, 1]))"
  by (simp add: positive_samples_def sum_i64_def word_sless_alt)

section \<open>Properties of the \<open>float64\<close> rounding\<close>

text \<open>Rounding to an integer never crosses an integer.\<close>

lemma rne_ge: "of_int M \<le> q \<Longrightarrow> M \<le> rne q"
proof -
  assume "of_int M \<le> q"
  then have "M \<le> \<lfloor>q\<rfloor>" by (simp add: le_floor_iff)
  then show ?thesis unfolding rne_def Let_def by auto
qed

lemma rne_le: "q \<le> of_int M \<Longrightarrow> rne q \<le> M"
proof -
  assume a: "q \<le> of_int M"
  have f: "\<lfloor>q\<rfloor> \<le> M" using a by (simp add: floor_le_iff) 
  show ?thesis
  proof (cases "\<lfloor>q\<rfloor> = M")
    case True
    then have "q = of_int M" using a
      by (metis of_int_floor_le order_antisym)
    then show ?thesis by (simp add: rne_def)
  next
    case False
    then have "\<lfloor>q\<rfloor> + 1 \<le> M" using f by simp
    then show ?thesis using f unfolding rne_def Let_def by auto
  qed
qed

lemma ilog2_le: "0 < x \<Longrightarrow> 2 powi (ilog2 x) \<le> x"
proof (cases "1 \<le> x")
  case True
  then have pos: "0 < \<lfloor>x\<rfloor>" by simp
  from bitlen_bounds[OF pos] have "2 ^ nat (bitlen \<lfloor>x\<rfloor> - 1) \<le> \<lfloor>x\<rfloor>" by simp
  then have "(of_int (2 ^ nat (bitlen \<lfloor>x\<rfloor> - 1)) :: rat) \<le> of_int \<lfloor>x\<rfloor>"
    by (simp only: of_int_le_iff)
  then have "(2 ^ nat (bitlen \<lfloor>x\<rfloor> - 1) :: rat) \<le> x"
    by (simp add: le_floor_iff)
  moreover have "1 \<le> bitlen \<lfloor>x\<rfloor>" using pos bitlen_eq_zero_iff[of "\<lfloor>x\<rfloor>"] bitlen_nonneg[of "\<lfloor>x\<rfloor>"] by linarith
  ultimately show ?thesis using True by (simp add: ilog2_def power_int_def)
next
  case False
  assume x: "0 < x"
  let ?c = "\<lceil>1 / x\<rceil> - 1"
  let ?n = "bitlen ?c"
  have "1 < 1 / x" using False x by (simp add: field_simps)
  then have pos: "0 < ?c" by (simp add: less_ceiling_iff)
  from bitlen_bounds[OF pos] have "?c < 2 ^ nat ?n" by simp
  then have "\<lceil>1 / x\<rceil> \<le> 2 ^ nat ?n" by simp
  then have "1 / x \<le> of_int (2 ^ nat ?n)" by (simp only: ceiling_le_iff)
  then have "1 / x \<le> 2 ^ nat ?n" by simp
  then have "1 / 2 ^ nat ?n \<le> x" using x by (simp add: field_simps)
  moreover have "0 \<le> ?n" by (rule bitlen_nonneg)
  ultimately show ?thesis using False
    by (simp add: ilog2_def power_int_minus power_int_nonneg_exp field_simps)
qed

lemma grid_mult:
  assumes "e \<le> - g"
  shows "\<exists>M::int. of_int N * 2 powi (- g) = (of_int M :: rat) * 2 powi e"
proof -
  have "(2::rat) powi (- g) = 2 powi (- g - e) * 2 powi e"
    by (simp add: power_int_add[symmetric])
  moreover have "(2::rat) powi (- g - e) = of_int (2 ^ nat (- g - e))"
    using assms by (simp add: power_int_def)
  ultimately have "of_int N * 2 powi (- g) = (of_int (N * 2 ^ nat (- g - e)) :: rat) * 2 powi e"
    by simp
  then show ?thesis by blast
qed

lemma round_f64_grid:
  assumes r1: "r1 = of_int N1 * 2 powi (- g)" and r2: "r2 = of_int N2 * 2 powi (- g)"
    and lo: "r1 \<le> x" "\<bar>r1\<bar> < 2 powi (53 - g)"
    and hi: "x \<le> r2" "\<bar>r2\<bar> < 2 powi (53 - g)"
    and g: "g \<le> 1074" "- 971 \<le> g"
  shows "\<exists>y. round_f64 x = Fin y \<and> r1 \<le> y \<and> y \<le> r2"
proof (cases "x = 0")
  case True
  then show ?thesis using lo hi by (simp add: round_f64_def)
next
  case False
  then have x: "0 < \<bar>x\<bar>" by simp
  define e where "e = max (ilog2 \<bar>x\<bar>) (- 1022) - 52"
  define u :: rat where "u = 2 powi e"
  define y where "y = of_int (rne (x / u)) * u"
  have u: "0 < u" by (simp add: u_def)
  have "2 powi (ilog2 \<bar>x\<bar>) \<le> \<bar>x\<bar>" by (rule ilog2_le[OF x])
  moreover have "\<bar>x\<bar> < 2 powi (53 - g)" using lo hi by linarith
  ultimately have "(2::rat) powi (ilog2 \<bar>x\<bar>) < 2 powi (53 - g)" by linarith
  then have "ilog2 \<bar>x\<bar> < 53 - g"
    using power_int_increasing[of "53 - g" "ilog2 \<bar>x\<bar>" "2::rat"]
    by (cases "ilog2 \<bar>x\<bar> < 53 - g") auto
  then have e: "e \<le> - g" using g by (simp add: e_def)
  obtain M1 :: int where M1: "r1 = of_int M1 * u"
    using grid_mult[OF e, of N1] r1 u_def by auto
  obtain M2 :: int where M2: "r2 = of_int M2 * u"
    using grid_mult[OF e, of N2] r2 u_def by auto
  have "of_int M1 \<le> x / u" using lo M1 u by (simp add: field_simps)
  then have "M1 \<le> rne (x / u)" by (rule rne_ge)
  then have ylo: "r1 \<le> y" using u by (simp add: y_def M1)
  have "x / u \<le> of_int M2" using hi M2 u by (simp add: field_simps)
  then have "rne (x / u) \<le> M2" by (rule rne_le)
  then have yhi: "y \<le> r2" using u by (simp add: y_def M2)
  have "(2::rat) powi (53 - g) \<le> 2 powi 1024"
    using g by (intro power_int_increasing) auto
  then have "\<not> 2 powi 1024 \<le> \<bar>y\<bar>" using ylo yhi lo hi by linarith
  then have "round_f64 x = Fin y" using False
    by (simp add: round_f64_def Let_def e_def[symmetric] u_def[symmetric] y_def[symmetric])
  then show ?thesis using ylo yhi by blast
qed

lemma round_f64_not_NaN: "round_f64 x \<noteq> NaN"
  by (simp add: round_f64_def Let_def)

lemma round_f64_ge_one:
  assumes x: "1 \<le> x" and y: "round_f64 x = Fin y"
  shows "1 \<le> y"
proof -
  have x0: "x \<noteq> 0" "\<bar>x\<bar> = x" using x by simp_all
  define e where "e = max (ilog2 x) (- 1022) - 52"
  define u :: rat where "u = 2 powi e"
  have u: "0 < u" by (simp add: u_def)
  have y_eq: "y = of_int (rne (x / u)) * u"
    using y x0 by (simp add: round_f64_def Let_def e_def[symmetric] u_def[symmetric] split: if_splits)
  show ?thesis
  proof (cases "e \<le> 0")
    case True
    obtain M :: int where "of_int 1 * 2 powi (- 0) = (of_int M :: rat) * 2 powi e"
      using grid_mult[of e 0 1] True by auto
    then have M: "1 = of_int M * u" by (simp add: u_def)
    then have "of_int M \<le> x / u" using x u by (simp add: field_simps)
    then have "M \<le> rne (x / u)" by (rule rne_ge)
    then have "of_int M * u \<le> y" using u by (simp add: y_eq)
    then show ?thesis using M by simp
  next
    case False
    then have el: "ilog2 x = e + 52" "0 < e" by (simp_all add: e_def max_def split: if_splits)
    have "2 powi (ilog2 x) \<le> x" using x by (intro ilog2_le) simp
    then have "2 powi 52 * u \<le> x" by (simp add: el u_def power_int_add)
    then have "of_int (2 ^ 52) \<le> x / u" using u by (simp add: field_simps)
    then have "2 ^ 52 \<le> rne (x / u)" by (rule rne_ge)
    then have "(of_int (2 ^ 52) :: rat) \<le> of_int (rne (x / u))" by (simp only: of_int_le_iff)
    then have "of_int (2 ^ 52) * u \<le> y" using u by (simp add: y_eq)
    moreover have "1 \<le> u" using el(2) power_int_increasing[of 0 e "2::rat"] by (simp add: u_def)
    moreover have "u \<le> of_int (2 ^ 52) * u" using u by simp
    ultimately show ?thesis by linarith
  qed
qed

text \<open>
  The same with a natural number of fraction bits: a rational between two multiples of
  \<open>1 / 2 ^ g\<close> below \<open>2 ^ (53 - g)\<close> is rounded to a value between them, since both
  are binary64 values.
\<close>

lemma round_f64_grid_nat:
  assumes r1: "r1 = of_int N1 / 2 ^ g" and r2: "r2 = of_int N2 / 2 ^ g"
    and lo: "0 \<le> r1" "r1 \<le> x" and hi: "x \<le> r2" "r2 < 2 ^ (53 - g)" and g: "g \<le> 53"
  shows "\<exists>y. round_f64 x = Fin y \<and> r1 \<le> y \<and> y \<le> r2"
proof -
  have p: "(2::rat) powi (- int g) = 1 / 2 ^ g"
    by (simp add: power_int_minus field_simps)
  have q: "(2::rat) powi (53 - int g) = 2 ^ (53 - g)"
    using g by (simp add: power_int_def nat_diff_distrib) 
  have "\<bar>r1\<bar> < 2 ^ (53 - g)" "\<bar>r2\<bar> < 2 ^ (53 - g)" using lo hi by simp_all
  then show ?thesis
    by (intro round_f64_grid[where g = "int g" and ?N1.0 = N1 and ?N2.0 = N2])
       (use assms in \<open>simp_all add: p q\<close>)
qed

lemma round_f64_int_exact:
  assumes "0 \<le> k" "k < 2 ^ 53"
  shows "round_f64 (of_int k) = Fin (of_int k)"
proof -
  have "(of_int k :: rat) < of_int (2 ^ 53)" using assms by (simp only: of_int_less_iff)
  then have "(of_int k :: rat) < 2 ^ 53" by simp
  then have "\<exists>y. round_f64 (of_int k) = Fin y \<and> of_int k \<le> y \<and> y \<le> of_int k"
    using assms by (intro round_f64_grid_nat[where g = 0 and ?N1.0 = k and ?N2.0 = k]) simp_all
  then show ?thesis by auto
qed

section \<open>Properties of \<open>average\<close>\<close>

lemma average_loop_eq:
  "average_loop (t, c) n =
     (t + sum_list (filter (\<lambda>i. 0 \<le> sint i) n),
      c + of_nat (length (filter (\<lambda>i. 0 \<le> sint i) n)))"
  by (induction n arbitrary: t c) (simp_all add: algebra_simps)

lemma valid_samples_nonneg: "0 \<le> sum_list (valid_samples n)"
  unfolding valid_samples_def by (induction n) auto

lemma floor_half_up:
  fixes T c :: int and k :: nat
  assumes T: "0 \<le> T" "T < 2 ^ (52 - k)" and c: "0 < c" "c \<le> 2 ^ k" and k: "k \<le> 51"
  defines "m \<equiv> \<lfloor>of_int T / of_int c + (1 / 2 :: rat)\<rfloor>"
  shows "int64_of_f64 (f64_floor (f64_add (round_f64 (of_int T / of_int c)) (Fin (1 / 2))))
         = Val (word_of_int m)"
proof -
  define q :: rat where "q = of_int T / of_int c"
  define g where "g = Suc k"
  have g: "g \<le> 53" "53 - g = 52 - k" using k by (simp_all add: g_def)
  have cq: "(0::rat) < of_int c" using c by simp
  have q0: "0 \<le> q" using T c by (simp add: q_def)
  have m_def': "m = \<lfloor>q + 1 / 2\<rfloor>" by (simp add: m_def q_def)
  have m0: "0 \<le> m" using q0 by (simp add: m_def')
  have m_le: "of_int m \<le> q + 1 / 2" unfolding m_def' by (rule of_int_floor_le)
  have m_gt: "q + 1 / 2 < of_int m + 1" unfolding m_def' by linarith
  \<comment> \<open>the mean stays at least \<open>1 / (2 c)\<close> below the next half-integer\<close>
  have "of_int (2 * T) < (of_int ((2 * m + 1) * c) :: rat)"
    using m_gt cq by (simp add: q_def field_simps)
  then have "2 * T < (2 * m + 1) * c" by (simp only: of_int_less_iff)
  then have "2 * T + 1 \<le> (2 * m + 1) * c" by simp
  then have "(of_int (2 * T + 1) :: rat) \<le> of_int ((2 * m + 1) * c)" by (simp only: of_int_le_iff)
  then have gap: "q + 1 / (2 * of_int c) \<le> of_int m + 1 / 2"
    using cq by (simp add: q_def field_simps)
  have "(of_int c :: rat) \<le> of_int (2 ^ k)" using c by (simp only: of_int_le_iff)
  then have "(2 * of_int c :: rat) \<le> 2 ^ g" by (simp add: g_def)
  then have "1 / (2 ^ g :: rat) \<le> 1 / (2 * of_int c)"
    using cq by (intro divide_left_mono) simp_all
  then have q_hi: "q \<le> of_int m + 1 / 2 - 1 / 2 ^ g" using gap by linarith
  \<comment> \<open>the rounded mean is at most the sum\<close>
  have "q \<le> of_int T"
  proof -
    have "(1::rat) \<le> of_int c" using c by simp
    then have "of_int T / of_int c \<le> (of_int T :: rat) / 1"
      using T by (intro divide_left_mono) simp_all
    then show ?thesis by (simp add: q_def)
  qed
  then have "q + 1 / 2 < of_int (T + 1)" by simp
  then have "m < T + 1" unfolding m_def' by (simp only: floor_less_iff)
  then have mT: "m + 1 \<le> 2 ^ (52 - k)" using T by simp
  then have "(of_int (m + 1) :: rat) \<le> of_int (2 ^ (52 - k))" by (simp only: of_int_le_iff)
  then have mT': "(of_int m :: rat) + 1 \<le> 2 ^ (52 - k)" by simp
  have pg: "(0::rat) < 1 / 2 ^ g" by simp
  have half: "(1 / 2 :: rat) = of_int (2 ^ k) / 2 ^ g" by (simp add: g_def)
  have one: "(1 :: rat) = of_int (2 ^ g) / 2 ^ g" by simp
  \<comment> \<open>first rounding: the quotient\<close>
  define r1 :: rat where "r1 = (if m = 0 then 0 else of_int m - 1 / 2)"
  define r2 :: rat where "r2 = of_int m + 1 / 2 - 1 / 2 ^ g"
  have r1: "r1 = of_int (if m = 0 then 0 else (2 * m - 1) * 2 ^ k) / 2 ^ g"
    by (simp add: r1_def g_def field_simps)
  have r2: "r2 = of_int ((2 * m + 1) * 2 ^ k - 1) / 2 ^ g"
    by (simp add: r2_def g_def field_simps)
  have r1_nonneg: "0 \<le> r1" using m0 by (auto simp: r1_def)
  have r1_le: "r1 \<le> q" using m_le q0 by (auto simp: r1_def)
  have r2_lt: "r2 < 2 ^ (53 - g)" using mT' pg unfolding g r2_def by linarith
  have q_le: "q \<le> r2" using q_hi by (simp add: r2_def)
  obtain y where y: "round_f64 q = Fin y" "r1 \<le> y" "y \<le> r2"
    using round_f64_grid_nat[OF r1 r2 r1_nonneg r1_le q_le r2_lt g(1)] by auto
  \<comment> \<open>second rounding: adding one half\<close>
  define s1 :: rat where "s1 = of_int m"
  define s2 :: rat where "s2 = of_int m + 1 - 1 / 2 ^ g"
  have s1: "s1 = of_int (m * 2 ^ g) / 2 ^ g" by (simp add: s1_def)
  have s2: "s2 = of_int ((m + 1) * 2 ^ g - 1) / 2 ^ g" by (simp add: s2_def field_simps)
  have s1_nonneg: "0 \<le> s1" using m0 by (simp add: s1_def)
  have s1_le: "s1 \<le> y + 1 / 2" using y(2) m0 by (auto simp: s1_def r1_def split: if_splits)
  have s2_ge: "y + 1 / 2 \<le> s2" using y(3) by (simp add: s2_def r2_def)
  have s2_lt: "s2 < 2 ^ (53 - g)" using mT' pg unfolding g s2_def by linarith
  obtain s where s: "round_f64 (y + 1 / 2) = Fin s" "s1 \<le> s" "s \<le> s2"
    using round_f64_grid_nat[OF s1 s2 s1_nonneg s1_le s2_ge s2_lt g(1)] by auto
  have "of_int m \<le> s" using s(2) by (simp add: s1_def)
  moreover have "s < of_int m + 1" using s(3) pg unfolding s2_def by linarith
  ultimately have fl: "\<lfloor>s\<rfloor> = m" by (simp add: floor_unique)
  have "m < 2 ^ 63"
  proof -
    have "(2::int) ^ (52 - k) \<le> 2 ^ 63" by (intro power_increasing) simp_all
    then show ?thesis using mT by linarith
  qed
  then show ?thesis
    using m0 by (simp add: q_def[symmetric] y s fl trunc_def)
qed

lemma floor_rat_numeral_div:
  "\<lfloor>numeral a / numeral b :: rat\<rfloor> = numeral a div numeral b"
  by (metis floor_divide_of_int_eq of_int_numeral)

text \<open>
  While the sum and the count are below \<open>2 ^ 53\<close> both conversions are exact, and the
  quotient is the rounded exact quotient.
\<close>

lemma favg_small:
  assumes ne: "valid_samples n \<noteq> []"
    and sum: "sum_list (valid_samples n) < 2 ^ 53"
    and len: "int (length (valid_samples n)) < 2 ^ 53"
  shows "favg n = round_f64 (of_int (sum_list (valid_samples n))
                              / of_int (int (length (valid_samples n))))"
proof -
  define T where "T = sum_list (valid_samples n)"
  define c where "c = int (length (valid_samples n))"
  have T0: "0 \<le> T" unfolding T_def by (rule valid_samples_nonneg)
  have T53: "T < 2 ^ 53" using sum by (simp add: T_def)
  have c0: "0 < c" using ne by (simp add: c_def)
  have c53: "c < 2 ^ 53" using len by (simp add: c_def)
  have loop: "average_loop (0, 0) n = (word_of_int T, word_of_int c)"
    by (simp add: average_loop_eq T_def c_def valid_samples_def word_of_int_sum_sint)
  have sT: "sint (word_of_int T :: 64 word) = T"
    using T0 T53 by (intro sint_word_of_int_64) simp_all
  have sc: "sint (word_of_int c :: 64 word) = c"
    using c0 c53 by (intro sint_word_of_int_64) simp_all
  have fT: "f64_of_int64 (word_of_int T) = Fin (of_int T)"
    unfolding f64_of_int64_def sT using T0 T53 by (rule round_f64_int_exact)
  have fc: "f64_of_int64 (word_of_int c) = Fin (of_int c)"
    unfolding f64_of_int64_def sc using c0 c53 by (intro round_f64_int_exact) simp_all
  have "favg n = round_f64 (of_int T / of_int c)"
    using c0 by (simp add: favg_def loop fT fc)
  then show ?thesis by (simp add: T_def c_def)
qed

lemma average_eq_rounded_mean:
  assumes ne: "valid_samples n \<noteq> []" and k: "k \<le> 51"
    and len: "length (valid_samples n) \<le> 2 ^ k"
    and sum: "sum_list (valid_samples n) < 2 ^ (52 - k)"
  shows "average n = Val (word_of_int (rounded_mean (valid_samples n)))"
proof -
  define T where "T = sum_list (valid_samples n)"
  define c where "c = int (length (valid_samples n))"
  have T0: "0 \<le> T" unfolding T_def by (rule valid_samples_nonneg)
  have T53: "T < 2 ^ 53"
  proof -
    have "(2::int) ^ (52 - k) \<le> 2 ^ 53" by (intro power_increasing) simp_all
    then show ?thesis using sum unfolding T_def by linarith
  qed
  have c0: "0 < c" using ne by (simp add: c_def)
  have ck: "c \<le> 2 ^ k"
    using len unfolding c_def by (metis of_nat_le_iff of_nat_numeral of_nat_power)
  have c53: "c < 2 ^ 53"
  proof -
    have "(2::int) ^ k \<le> 2 ^ 51" using k by (intro power_increasing) simp_all
    moreover have "(2::int) ^ 51 < 2 ^ 53" by simp
    ultimately show ?thesis using ck by linarith
  qed
  have "favg n = round_f64 (of_int T / of_int c)"
    using favg_small[OF ne] T53 c53 by (simp add: T_def c_def)
  then have "average n = Val (word_of_int \<lfloor>of_int T / of_int c + (1 / 2 :: rat)\<rfloor>)"
    unfolding average_def using floor_half_up[OF T0 _ c0 ck k] sum by (simp add: T_def)
  then show ?thesis by (simp add: rounded_mean_def T_def c_def)
qed

lemma average_10_20_30: "favg [10, 20, 30] = Fin 20" "average [10, 20, 30] = Val 20"
proof -
  have v: "valid_samples [10, 20, 30] = [10, 20, 30]" by (simp add: valid_samples_def)
  show "favg [10, 20, 30] = Fin 20"
    using favg_small[of "[10, 20, 30]"] round_f64_int_exact[of 20] by (simp add: v)
  show "average [10, 20, 30] = Val 20"
    using average_eq_rounded_mean[of "[10, 20, 30]" 2]
    by (simp add: v rounded_mean_def floor_rat_numeral_div)
qed

text \<open>Every \<open>int64\<close> converts to a finite value, and a count of at least one to at least one.\<close>

lemma f64_of_int64_finite: "\<exists>a. f64_of_int64 w = Fin a \<and> \<bar>a\<bar> \<le> 2 ^ 63"
proof -
  define s where "s = sint w"
  have "- (2 ^ 63) \<le> s" "s < 2 ^ 63"
    using sint_ge[of w] sint_lt[of w] by (simp_all add: s_def)
  then have "(of_int (- (2 ^ 63)) :: rat) \<le> of_int s" "(of_int s :: rat) \<le> of_int (2 ^ 63)"
    by (simp_all only: of_int_le_iff)
  then have b: "- (2 ^ 63) \<le> (of_int s :: rat)" "(of_int s :: rat) \<le> 2 ^ 63" by simp_all
  have "\<exists>y. round_f64 (of_int s) = Fin y \<and> - (2 ^ 63) \<le> y \<and> y \<le> 2 ^ 63"
    by (rule round_f64_grid[where g = "- 11" and ?N1.0 = "- (2 ^ 52)" and ?N2.0 = "2 ^ 52"])
       (use b in simp_all)
  then show ?thesis unfolding f64_of_int64_def s_def[symmetric] by auto
qed

lemma favg_finite:
  assumes len: "length n < 2 ^ 63" and ne: "valid_samples n \<noteq> []"
  shows "\<exists>q. favg n = Fin q"
proof -
  define c where "c = int (length (valid_samples n))"
  obtain tot count where loop: "average_loop (0, 0) n = (tot, count)" by force
  have count: "count = word_of_int c"
    using loop by (simp add: average_loop_eq c_def valid_samples_def)
  have c0: "1 \<le> c" using ne by (cases "valid_samples n") (simp_all add: c_def)
  have "length (valid_samples n) \<le> length n" by (simp add: valid_samples_def)
  then have "length (valid_samples n) < 2 ^ 63" using len by linarith
  then have "int (length (valid_samples n)) < int (2 ^ 63)" by (simp only: of_nat_less_iff)
  then have "c < 2 ^ 63" unfolding c_def by simp
  then have sc: "sint count = c" unfolding count using c0 by (intro sint_word_of_int_64) simp_all
  obtain a where a: "f64_of_int64 tot = Fin a" "\<bar>a\<bar> \<le> 2 ^ 63"
    using f64_of_int64_finite by blast
  obtain b where b: "f64_of_int64 count = Fin b" "\<bar>b\<bar> \<le> 2 ^ 63"
    using f64_of_int64_finite by blast
  have "(1::rat) \<le> of_int c" using c0 by simp
  then have b1: "1 \<le> b"
    using round_f64_ge_one[of "of_int c" b] b(1) unfolding f64_of_int64_def sc by simp
  have "\<bar>a\<bar> / \<bar>b\<bar> \<le> \<bar>a\<bar> / 1" using b1 by (intro divide_left_mono) simp_all
  then have "\<bar>a / b\<bar> \<le> 2 ^ 63" using a(2) unfolding abs_divide by linarith
  then have q: "- (2 ^ 63) \<le> a / b" "a / b \<le> 2 ^ 63" by linarith+
  have "\<exists>y. round_f64 (a / b) = Fin y \<and> - (2 ^ 63) \<le> y \<and> y \<le> 2 ^ 63"
    by (rule round_f64_grid[where g = "- 11" and ?N1.0 = "- (2 ^ 52)" and ?N2.0 = "2 ^ 52"])
       (use q in simp_all)
  then show ?thesis using b1 by (auto simp: favg_def loop a b)
qed

lemma favg_no_valid:
  assumes "valid_samples n = []"
  shows "favg n = NaN" "average n = ImplementationDependent"
proof -
  have "filter (\<lambda>i. 0 \<le> sint i) n = []" using assms by (simp add: valid_samples_def)
  then have "average_loop (0, 0) n = (0, 0)" by (simp add: average_loop_eq)
  then show "favg n = NaN" by (simp add: favg_def f64_of_int64_def round_f64_def)
  then show "average n = ImplementationDependent" by (simp add: average_def)
qed

text \<open>
  Claim C2. \<open>average\<close> divides the sum of the samples that are not negative by their
  count and does not test the count. With at least one such sample (in a slice, whose
  length is below \<open>2 ^ 63\<close>) the quotient is a finite number. With none the quotient is
  \<open>0 / 0\<close>, which is NaN, and the conversion of NaN to \<open>int64\<close> has no defined result:
  a defined result needs a sample that is not negative.
\<close>

theorem average_zero_count:
  "(length n < 2 ^ 63 \<and> valid_samples n \<noteq> [] \<longrightarrow> (\<exists>q. favg n = Fin q))
   \<and> (valid_samples n = [] \<longrightarrow> favg n = NaN \<and> average n = ImplementationDependent)
   \<and> (average n = Val v \<longrightarrow> valid_samples n \<noteq> [])"
  using favg_finite[of n] favg_no_valid[of n] by auto

theorem average_zero_count_witness:
  "length [10, 20, 30 :: int64] < 2 ^ 63 \<and> valid_samples [10, 20, 30] \<noteq> []
   \<and> favg [10, 20, 30] = Fin 20 \<and> average [10, 20, 30] = Val 20
   \<and> valid_samples [- 1, - 1] = []
   \<and> favg [- 1, - 1] = NaN \<and> average [- 1, - 1] = ImplementationDependent"
proof -
  have v1: "valid_samples [10, 20, 30] = [10, 20, 30]" by (simp add: valid_samples_def)
  have v2: "valid_samples [- 1, - 1] = []" by (simp add: valid_samples_def)
  show ?thesis
    using average_zero_count[of "[10, 20, 30]" 20] average_zero_count[of "[- 1, - 1]" 0]
    by (simp add: v1 v2 average_10_20_30)
qed

text \<open>
  Claim C3, as the code has it. \<open>average\<close> computes in \<open>float64\<close>, so it returns the
  arithmetic mean of the samples that are not negative, rounded by \<open>floor (x + 0.5)\<close>,
  as long as the numbers are small enough for the 53-bit significand: when, for some
  \<open>k \<le> 51\<close>, there are at most \<open>2 ^ k\<close> such samples and their sum is below
  \<open>2 ^ (52 - k)\<close>. \<open>average([10,20,30]) = 20\<close> and \<open>average([-1,10]) = 10\<close>.
\<close>

theorem average_rounded_mean:
  assumes "valid_samples n \<noteq> []" and "k \<le> 51"
    and "length (valid_samples n) \<le> 2 ^ k"
    and "sum_list (valid_samples n) < 2 ^ (52 - k)"
  shows "average n = Val (word_of_int (rounded_mean (valid_samples n)))"
  using assms by (rule average_eq_rounded_mean)

theorem average_rounded_mean_witness:
  "valid_samples [10, 20, 30] \<noteq> [] \<and> (2::nat) \<le> 51
   \<and> length (valid_samples [10, 20, 30]) \<le> 2 ^ 2
   \<and> sum_list (valid_samples [10, 20, 30]) < 2 ^ (52 - 2)
   \<and> rounded_mean (valid_samples [10, 20, 30]) = 20
   \<and> average [10, 20, 30] = Val 20 \<and> average [- 1, 10] = Val 10"
proof -
  have v1: "valid_samples [10, 20, 30] = [10, 20, 30]" by (simp add: valid_samples_def)
  have v2: "valid_samples [- 1, 10] = [10]" by (simp add: valid_samples_def)
  have m1: "rounded_mean [10, 20, 30] = 20"
    by (simp add: rounded_mean_def floor_rat_numeral_div)
  have m2: "rounded_mean [10] = 10" by (simp add: rounded_mean_def floor_rat_numeral_div)
  show ?thesis
    using average_rounded_mean[of "[10, 20, 30]" 2] average_rounded_mean[of "[- 1, 10]" 2]
    by (simp add: v1 v2 m1 m2)
qed

text \<open>
  The claim C3 as it is written, for every sample sequence, fails on a sample that
  \<open>float64\<close> cannot hold: the mean of the single sample \<open>2 ^ 53 + 1\<close> is that sample,
  and \<open>average\<close> returns \<open>2 ^ 53\<close>.
\<close>

lemmas round_f64_eval =
  round_f64_def ilog2_def rne_def Let_def power_int_def compute_bitlen floor_rat_numeral_div

lemma round_f64_above_2_53:
  "round_f64 9007199254740993 = Fin 9007199254740992"
  "round_f64 9007199254740992 = Fin 9007199254740992"
  "round_f64 (18014398509481985 / 2) = Fin 9007199254740992"
  by (simp_all add: round_f64_eval)

theorem average_rounded_mean_counterexample:
  "valid_samples [9007199254740993] \<noteq> []
   \<and> rounded_mean (valid_samples [9007199254740993]) = 9007199254740993
   \<and> average [9007199254740993] = Val 9007199254740992
   \<and> average [9007199254740993]
       \<noteq> Val (word_of_int (rounded_mean (valid_samples [9007199254740993])))"
proof -
  have v: "valid_samples [9007199254740993] = [9007199254740993]"
    by (simp add: valid_samples_def)
  have m: "rounded_mean [9007199254740993] = 9007199254740993"
    by (simp add: rounded_mean_def floor_rat_numeral_div)
  have one: "round_f64 1 = Fin 1" using round_f64_int_exact[of 1] by simp
  have a: "average [9007199254740993] = Val 9007199254740992"
    by (simp add: average_def favg_def f64_of_int64_def round_f64_above_2_53 one trunc_def)
  show ?thesis by (simp add: v m a)
qed

section \<open>Properties of the string functions\<close>

lemma suffix_both:
  assumes "suffix a s" "suffix b s" "length a \<le> length b"
  shows "suffix a b"
proof -
  from suffix_same_cases[OF assms(1,2)] show ?thesis
  proof
    assume "suffix b a"
    then obtain zs where "a = zs @ b" by (auto simp: suffix_def)
    then have "a = b" using assms(3) by simp
    then show ?thesis by simp
  qed
qed

lemma latest_not_other:
  assumes "suffix ''.latest'' s"
  shows "\<not> suffix ''.average'' s" "\<not> suffix ''.maximum'' s" "\<not> suffix ''.minimum'' s"
proof -
  have "\<not> suffix ''.latest'' ''.average''" "\<not> suffix ''.latest'' ''.maximum''"
       "\<not> suffix ''.latest'' ''.minimum''"
    by (simp_all add: suffix_to_prefix)
  then show "\<not> suffix ''.average'' s" "\<not> suffix ''.maximum'' s" "\<not> suffix ''.minimum'' s"
    using suffix_both[OF assms] by fastforce+
qed



section \<open>Properties of the loop over the series\<close>

lemma serie_step_Inr:
  assumes "serie_step sc tags maps s = Inr maps'"
  shows "\<exists>m i f v. contribution sc s = Some (m, i, f, v) \<and>
           maps' = (if i = '''' then maps\<lparr>entity_fields := (entity_fields maps)(f \<mapsto> v)\<rparr>
                    else maps\<lparr>special_fields :=
                                 set_special_field (m, str_at tags ''name'', i) f v (special_fields maps),
                               special_tags :=
                                 set_special_tags (m, str_at tags ''name'', i) tags
                                   (map_of (special_fields maps) (m, str_at tags ''name'', i) \<noteq> None)
                                   (special_tags maps)\<rparr>)"
  using assms
  by (auto simp: serie_step_def contribution_def special_key_of_def Let_def
           split: BasePerfMetricSeries.splits sum.splits if_splits)

lemma map_of_set_special_field:
  "map_of (set_special_field key f v sf) =
     (map_of sf)(key \<mapsto> (case map_of sf key of None \<Rightarrow> Map.empty | Some m \<Rightarrow> m)(f \<mapsto> v))"
  by (simp add: set_special_field_def update_conv')

lemma keys_set_special_field:
  "fst ` set (set_special_field key f v sf) = insert key (fst ` set sf)"
  by (simp add: set_special_field_def dom_update[simplified dom_map_of_conv_image_fst])

lemma distinct_set_special_field:
  "distinct (map fst sf) \<Longrightarrow> distinct (map fst (set_special_field key f v sf))"
  by (simp add: set_special_field_def distinct_update)

lemma series_loop_invariant:
  assumes "series_loop sc tags maps ss = Inr maps'" and "P maps"
    and "\<And>m s m'. s \<in> set ss \<Longrightarrow> P m \<Longrightarrow> serie_step sc tags m s = Inr m' \<Longrightarrow> P m'"
  shows "P maps'"
  using assms
proof (induction ss arbitrary: maps)
  case Nil
  then show ?case by simp
next
  case (Cons s ss)
  from Cons.prems(1) obtain m1 where s1: "serie_step sc tags maps s = Inr m1"
    and rest: "series_loop sc tags m1 ss = Inr maps'"
    by (auto split: sum.splits)
  have "P m1" using Cons.prems(2,3) s1 by auto
  then show ?case using Cons.IH[OF rest] Cons.prems(3) by auto
qed

lemma series_loop_Cons_Inr:
  assumes "series_loop sc tags maps (s # ss) = Inr maps'"
  obtains m1 where "serie_step sc tags maps s = Inr m1" "series_loop sc tags m1 ss = Inr maps'"
  using assms by (auto split: sum.splits)

lemma serie_step_parts:
  assumes "serie_step sc tags maps s = Inr m1"
  shows "\<exists>m i f v. contribution sc s = Some (m, i, f, v)
     \<and> entity_fields m1 = (if i = '''' then (entity_fields maps)(f \<mapsto> v) else entity_fields maps)
     \<and> special_fields m1 =
           (if i = '''' then special_fields maps
            else set_special_field (m, str_at tags ''name'', i) f v (special_fields maps))
     \<and> special_tags m1 =
           (if i = '''' then special_tags maps
            else set_special_tags (m, str_at tags ''name'', i) tags
                   (map_of (special_fields maps) (m, str_at tags ''name'', i) \<noteq> None)
                   (special_tags maps))"
proof -
  from serie_step_Inr[OF assms] obtain m i f v where c: "contribution sc s = Some (m, i, f, v)"
    and m1: "m1 = (if i = '''' then maps\<lparr>entity_fields := (entity_fields maps)(f \<mapsto> v)\<rparr>
                    else maps\<lparr>special_fields :=
                                 set_special_field (m, str_at tags ''name'', i) f v (special_fields maps),
                               special_tags :=
                                 set_special_tags (m, str_at tags ''name'', i) tags
                                   (map_of (special_fields maps) (m, str_at tags ''name'', i) \<noteq> None)
                                   (special_tags maps)\<rparr>)"
    by blast
  show ?thesis
    by (intro exI[of _ m] exI[of _ i] exI[of _ f] exI[of _ v]) (simp add: c m1)
qed

lemma entity_fields_source:
  assumes "series_loop sc tags maps ss = Inr maps'" and "entity_fields maps' f = Some v"
  shows "entity_fields maps f = Some v
         \<or> (\<exists>s\<in>set ss. \<exists>m. contribution sc s = Some (m, '''', f, v))"
  using assms
proof (induction ss arbitrary: maps)
  case Nil
  then show ?case by simp
next
  case (Cons s ss)
  from Cons.prems(1) obtain m1 where s1: "serie_step sc tags maps s = Inr m1"
    and rest: "series_loop sc tags m1 ss = Inr maps'"
    by (rule series_loop_Cons_Inr)
  from Cons.IH[OF rest Cons.prems(2)]
  show ?case
  proof
    assume later: "\<exists>s\<in>set ss. \<exists>m. contribution sc s = Some (m, '''', f, v)"
    then show ?thesis by auto
  next
    assume m1: "entity_fields m1 f = Some v"
    from serie_step_parts[OF s1] obtain m i g w where c: "contribution sc s = Some (m, i, g, w)"
      and e: "entity_fields m1 = (if i = '''' then (entity_fields maps)(g \<mapsto> w) else entity_fields maps)"
      by blast
    show ?thesis
    proof (cases "i = '''' \<and> g = f")
      case True
      then have "w = v" using e m1 by simp
      then show ?thesis using c True by auto
    next
      case False
      then have "entity_fields maps f = Some v" using e m1 by (auto split: if_splits)
      then show ?thesis by simp
    qed
  qed
qed

lemma special_fields_source:
  assumes "series_loop sc tags maps ss = Inr maps'"
    and "map_of (special_fields maps') key = Some fm'" and "fm' f = Some v"
  shows "(\<exists>fm. map_of (special_fields maps) key = Some fm \<and> fm f = Some v)
         \<or> (\<exists>s\<in>set ss. \<exists>m i. contribution sc s = Some (m, i, f, v) \<and> i \<noteq> ''''
                \<and> key = (m, str_at tags ''name'', i))"
  using assms
proof (induction ss arbitrary: maps)
  case Nil
  then show ?case by simp
next
  case (Cons s ss)
  from Cons.prems(1) obtain m1 where s1: "serie_step sc tags maps s = Inr m1"
    and rest: "series_loop sc tags m1 ss = Inr maps'"
    by (rule series_loop_Cons_Inr)
  from Cons.IH[OF rest Cons.prems(2,3)]
  show ?case
  proof
    assume "\<exists>s\<in>set ss. \<exists>m i. contribution sc s = Some (m, i, f, v) \<and> i \<noteq> ''''
                \<and> key = (m, str_at tags ''name'', i)"
    then show ?thesis by auto
  next
    assume "\<exists>fm. map_of (special_fields m1) key = Some fm \<and> fm f = Some v"
    then obtain fm where fm: "map_of (special_fields m1) key = Some fm" "fm f = Some v" by blast
    from serie_step_parts[OF s1] obtain m i g w where c: "contribution sc s = Some (m, i, g, w)"
      and e: "special_fields m1 =
               (if i = '''' then special_fields maps
                else set_special_field (m, str_at tags ''name'', i) g w (special_fields maps))"
      by blast
    show ?thesis
    proof (cases "i \<noteq> '''' \<and> key = (m, str_at tags ''name'', i)")
      case False
      then have "map_of (special_fields maps) key = Some fm"
        using e fm(1) by (auto simp: map_of_set_special_field split: if_splits)
      then show ?thesis using fm(2) by blast
    next
      case True
      then have fm_eq: "fm = (case map_of (special_fields maps) key of
                   None \<Rightarrow> Map.empty | Some fm \<Rightarrow> fm)(g \<mapsto> w)"
        using e fm(1) by (simp add: map_of_set_special_field)
      show ?thesis
      proof (cases "g = f")
        case gf: True
        then have "w = v" using fm_eq fm(2) by simp
        then show ?thesis using c True gf by auto
      next
        case False
        then have "(case map_of (special_fields maps) key of
                   None \<Rightarrow> Map.empty | Some fm \<Rightarrow> fm) f = Some v"
          using fm_eq fm(2) by simp
        then show ?thesis by (auto split: option.splits)
      qed
    qed
  qed
qed

lemma special_field_kept_step:
  assumes "serie_step sc tags maps s = Inr m1"
    and "map_of (special_fields maps) key = Some fm" and "fm f \<noteq> None"
  shows "\<exists>fm'. map_of (special_fields m1) key = Some fm' \<and> fm' f \<noteq> None"
proof -
  from serie_step_parts[OF assms(1)] obtain m i g w where
      e: "special_fields m1 =
               (if i = '''' then special_fields maps
                else set_special_field (m, str_at tags ''name'', i) g w (special_fields maps))"
    by blast
  show ?thesis
    using e assms(2,3) by (auto simp: map_of_set_special_field split: if_splits)
qed

lemma special_field_kept:
  assumes "series_loop sc tags maps ss = Inr maps'"
    and "map_of (special_fields maps) key = Some fm" and "fm f \<noteq> None"
  shows "\<exists>fm'. map_of (special_fields maps') key = Some fm' \<and> fm' f \<noteq> None"
  using assms
proof (induction ss arbitrary: maps fm)
  case Nil
  then show ?case by simp
next
  case (Cons s ss)
  from Cons.prems(1) obtain m1 where s1: "serie_step sc tags maps s = Inr m1"
    and rest: "series_loop sc tags m1 ss = Inr maps'"
    by (rule series_loop_Cons_Inr)
  from special_field_kept_step[OF s1 Cons.prems(2,3)]
  obtain fm1 where "map_of (special_fields m1) key = Some fm1" "fm1 f \<noteq> None" by blast
  then show ?case using Cons.IH[OF rest] by blast
qed

lemma special_field_present:
  assumes "series_loop sc tags maps ss = Inr maps'" and "s \<in> set ss"
    and "contribution sc s = Some (m, i, f, v)" and "i \<noteq> ''''"
  shows "\<exists>fm'. map_of (special_fields maps') (m, str_at tags ''name'', i) = Some fm'
               \<and> fm' f \<noteq> None"
  using assms(1,2)
proof (induction ss arbitrary: maps)
  case Nil
  then show ?case by simp
next
  case (Cons s' ss)
  from Cons.prems(1) obtain m1 where s1: "serie_step sc tags maps s' = Inr m1"
    and rest: "series_loop sc tags m1 ss = Inr maps'"
    by (rule series_loop_Cons_Inr)
  show ?case
  proof (cases "s' = s")
    case False
    then show ?thesis using Cons.IH[OF rest] Cons.prems(2) by simp
  next
    case True
    from serie_step_parts[OF s1] obtain m' i' g w where c: "contribution sc s' = Some (m', i', g, w)"
      and e: "special_fields m1 =
               (if i' = '''' then special_fields maps
                else set_special_field (m', str_at tags ''name'', i') g w (special_fields maps))"
      by blast
    have eq: "m' = m" "i' = i" "g = f" using c True assms(3) by simp_all
    have "\<exists>fm. map_of (special_fields m1) (m, str_at tags ''name'', i) = Some fm \<and> fm f \<noteq> None"
      using e assms(4) by (simp add: eq map_of_set_special_field)
    then show ?thesis using special_field_kept[OF rest] by blast
  qed
qed

lemma special_keys_distinct:
  assumes "series_loop sc tags maps ss = Inr maps'"
    and "distinct (map fst (special_fields maps))"
  shows "distinct (map fst (special_fields maps'))"
proof (rule series_loop_invariant[OF assms(1), where P = "\<lambda>m. distinct (map fst (special_fields m))"])
  show "distinct (map fst (special_fields maps))" by (rule assms(2))
next
  fix m s m'
  assume d: "distinct (map fst (special_fields m))" and st: "serie_step sc tags m s = Inr m'"
  from serie_step_parts[OF st] show "distinct (map fst (special_fields m'))"
    using d by (auto simp: distinct_set_special_field split: if_splits)
qed

lemma special_ok_step:
  assumes ok: "special_ok tags maps" and st: "serie_step sc tags maps s = Inr m1"
  shows "special_ok tags m1"
proof -
  from serie_step_Inr[OF st] obtain m i g w where
    m1: "m1 = (if i = '''' then maps\<lparr>entity_fields := (entity_fields maps)(g \<mapsto> w)\<rparr>
                    else maps\<lparr>special_fields :=
                                 set_special_field (m, str_at tags ''name'', i) g w (special_fields maps),
                               special_tags :=
                                 set_special_tags (m, str_at tags ''name'', i) tags
                                   (map_of (special_fields maps) (m, str_at tags ''name'', i) \<noteq> None)
                                   (special_tags maps)\<rparr>)"
    by blast
  show ?thesis
  proof (cases "i = ''''")
    case True
    then show ?thesis using ok m1 by (simp add: special_ok_def)
  next
    case False
    let ?k = "(m, str_at tags ''name'', i)"
    have new: "set_special_tags ?k tags (map_of (special_fields maps) ?k \<noteq> None) (special_tags maps) ?k
               = Some (tags(''instance'' \<mapsto> i))"
    proof (cases "map_of (special_fields maps) ?k")
      case None
      then show ?thesis by (simp add: set_special_tags_def)
    next
      case (Some fm)
      then have "?k \<in> fst ` set (special_fields maps)"
        by (metis domI dom_map_of_conv_image_fst)
      then have "special_tags maps ?k = Some (tags(''instance'' \<mapsto> i))"
        using ok by (auto simp: special_ok_def)
      then show ?thesis using Some by (auto simp: set_special_tags_def map_add_def fun_eq_iff split: option.splits)
    qed
    show ?thesis
      unfolding special_ok_def
    proof
      fix key assume "key \<in> fst ` set (special_fields m1)"
      then have k: "key = ?k \<or> key \<in> fst ` set (special_fields maps)"
        using m1 False by (simp add: keys_set_special_field)
      show "snd (snd key) \<noteq> '''' \<and> fst (snd key) = str_at tags ''name''
        \<and> special_tags m1 key = Some (tags(''instance'' \<mapsto> snd (snd key)))"
      proof (cases "key = ?k")
        case True
        then show ?thesis using new m1 False by simp
      next
        case False
        then have "key \<in> fst ` set (special_fields maps)" using k by simp
        then have "snd (snd key) \<noteq> '''' \<and> fst (snd key) = str_at tags ''name''
          \<and> special_tags maps key = Some (tags(''instance'' \<mapsto> snd (snd key)))"
          using ok by (auto simp: special_ok_def)
        moreover have "special_tags m1 key = special_tags maps key"
          using m1 \<open>i \<noteq> ''''\<close> False by (simp add: set_special_tags_def)
        ultimately show ?thesis by simp
      qed
    qed
  qed
qed

lemma special_ok_loop:
  assumes "series_loop sc tags maps ss = Inr maps'" and "special_ok tags maps"
  shows "special_ok tags maps'"
  by (rule series_loop_invariant[OF assms(1), where P = "special_ok tags"])
     (use assms(2) special_ok_step in auto)

lemma entity_points_Inr:
  assumes "entity_points sc (PerfEntityMetric entity series) = Inr (pt # pts)"
  shows "\<exists>maps. series_loop sc (entity_tags sc entity)
                  \<lparr>entity_fields = Map.empty, special_fields = [], special_tags = Map.empty\<rparr>
                  series = Inr maps
          \<and> Tags pt = entity_tags sc entity
          \<and> Measurement pt = ToLower sc (Type entity)
          \<and> Fields pt = entity_fields maps ++
                (map_option Val \<circ> summary_of (host_extra_metrics sc) entity)
          \<and> pts = map (special_point maps) (special_fields maps)"
  using assms by (auto simp: entity_points_def split: sum.splits)

lemma special_point_of_key:
  assumes ok: "special_ok tags maps" and mem: "(key, fm) \<in> set (special_fields maps)"
  shows "Measurement (special_point maps (key, fm)) = fst key"
    and "Tags (special_point maps (key, fm)) = tags(''instance'' \<mapsto> snd (snd key))"
    and "Fields (special_point maps (key, fm)) = fm"
    and "fst (snd key) = str_at tags ''name''" and "snd (snd key) \<noteq> ''''"
proof -
  have k: "key \<in> fst ` set (special_fields maps)" using mem by force
  then have t: "special_tags maps key = Some (tags(''instance'' \<mapsto> snd (snd key)))"
    and n: "fst (snd key) = str_at tags ''name''" and i: "snd (snd key) \<noteq> ''''"
    using ok by (auto simp: special_ok_def)
  show "Measurement (special_point maps (key, fm)) = fst key"
    and "Fields (special_point maps (key, fm)) = fm"
    by (simp_all add: special_point_def)
  show "Tags (special_point maps (key, fm)) = tags(''instance'' \<mapsto> snd (snd key))"
    using t by (simp add: special_point_def summary_of_def)
  show "fst (snd key) = str_at tags ''name''" "snd (snd key) \<noteq> ''''" by (rule n, rule i)
qed









section \<open>The example, evaluated\<close>

lemma average_pair:
  assumes "0 \<le> sint a" "0 \<le> sint b" "sint a + sint b < 2 ^ 50"
  shows "average [a, b] = Val (word_of_int \<lfloor>(of_int (sint a + sint b) / 2 + 1 / 2 :: rat)\<rfloor>)"
  using average_eq_rounded_mean[of "[a, b]" 2] assms
  by (simp add: valid_samples_def rounded_mean_def)

lemma example_averages:
  "average [40, 60] = Val 50" "average [20, 30] = Val 25" "average [5, 15] = Val 10"
  using average_pair[of 40 60] average_pair[of 20 30] average_pair[of 5 15]
  by (simp_all add: floor_rat_numeral_div)

lemma example_names:
  "metricName_of example_scope \<lparr>CounterId = 1, Instance = i\<rparr> = ''cpu.usage.average''"
  "metricName_of example_scope \<lparr>CounterId = 2, Instance = i\<rparr> = ''disk.usage.average''"
  "metricName_of example_scope \<lparr>CounterId = 3, Instance = i\<rparr> = ''datastore.read.average''"
  "metricName_of example_scope \<lparr>CounterId = 4, Instance = i\<rparr> = ''disk.used.latest''"
  "metricName_of example_scope \<lparr>CounterId = 5, Instance = i\<rparr> = ''cpu.ready.none''"
  by (simp_all add: metricName_of_def example_scope_def str_at_def ascii_lower_def
        ascii_lower_char_def)

lemma example_ToLower: "ToLower example_scope = ascii_lower"
  by (simp add: example_scope_def)

lemma example_entity_tags: "entity_tags example_scope example_vm = example_tags"
  by (simp add: entity_tags_def example_scope_def example_tags_def str_at_def summary_of_def
        ascii_lower_def ascii_lower_char_def)

lemma example_entity_points:
  "entity_points example_scope (PerfEntityMetric example_vm example_series) =
     Inr [\<lparr>Measurement = ''virtualmachine'', Tags = example_tags,
           Fields = [''cpu_usage_average'' \<mapsto> Val 50]\<rparr>,
          \<lparr>Measurement = ''disk'', Tags = example_tags(''instance'' \<mapsto> ''scsi0''),
           Fields = [''disk_usage_average'' \<mapsto> Val 25]\<rparr>,
          \<lparr>Measurement = ''disk'', Tags = example_tags(''instance'' \<mapsto> ''scsi1''),
           Fields = [''disk_usage_average'' \<mapsto> Val 10]\<rparr>]"
proof -
  have ex: "host_extra_metrics example_scope example_vm = None"
    by (simp add: example_scope_def)
  have ty: "ToLower example_scope (Type example_vm) = ''virtualmachine''"
    by (simp add: example_scope_def example_vm_def ascii_lower_def ascii_lower_char_def)
  have nm: "str_at example_tags ''name'' = ''web1''" by (simp add: example_tags_def str_at_def)
  have e: "m ++ (map_option Val \<circ> Map.empty) = m" for m :: "string \<rightharpoonup> int64_result"
    by (simp add: map_add_def fun_eq_iff)
  show ?thesis
    by (simp add: entity_points_def example_series_def example_entity_tags serie_step_def
          series_value_def example_names example_averages influxMetricName_of_def
          instanceName_of_def measurementName_of_def Split_0_def special_key_of_def
          set_special_field_def set_special_tags_def special_point_def summary_of_def
          example_ToLower ascii_lower_def ascii_lower_char_def Let_def nm ex e
          suffix_to_prefix)
       (simp add: example_vm_def ascii_lower_char_def)
qed

section \<open>The points of one entity\<close>

text \<open>The points of one entity, when they are assembled without a panic.\<close>

lemma entity_points_separation:
  assumes "entity_points sc (PerfEntityMetric entity series) = Inr (pt # pts)"
  shows "(\<forall>f v. Fields pt f = Some v \<longrightarrow>
            (map_option Val \<circ> summary_of (host_extra_metrics sc) entity) f = Some v
            \<or> (\<exists>s\<in>set series. \<exists>m. contribution sc s = Some (m, '''', f, v)))
    \<and> (\<forall>s\<in>set series. \<forall>m i f v. contribution sc s = Some (m, i, f, v) \<and> i \<noteq> '''' \<longrightarrow>
            (\<exists>p\<in>set pts. Measurement p = m \<and> Tags p = (Tags pt)(''instance'' \<mapsto> i)
                          \<and> Fields p f \<noteq> None))
    \<and> (\<forall>p\<in>set pts. \<exists>m i. i \<noteq> '''' \<and> Measurement p = m
            \<and> Tags p = (Tags pt)(''instance'' \<mapsto> i)
            \<and> (\<forall>f v. Fields p f = Some v \<longrightarrow>
                  (\<exists>s\<in>set series. contribution sc s = Some (m, i, f, v))))
    \<and> distinct (map (\<lambda>p. (Measurement p, Tags p ''instance'')) pts)"
proof -
  define tags where "tags = entity_tags sc entity"
  define init where
    "init = \<lparr>entity_fields = Map.empty, special_fields = [], special_tags = Map.empty\<rparr>"
  from entity_points_Inr[OF assms] obtain maps where
    loop: "series_loop sc tags init series = Inr maps"
    and pt_tags: "Tags pt = tags"
    and pt_fields: "Fields pt = entity_fields maps ++
                      (map_option Val \<circ> summary_of (host_extra_metrics sc) entity)"
    and pts: "pts = map (special_point maps) (special_fields maps)"
    unfolding tags_def init_def by blast
  have ok: "special_ok tags maps"
    by (rule special_ok_loop[OF loop]) (simp add: special_ok_def init_def)
  have dist: "distinct (map fst (special_fields maps))"
    by (rule special_keys_distinct[OF loop]) (simp add: init_def)
  have a: "(map_option Val \<circ> summary_of (host_extra_metrics sc) entity) f = Some v
            \<or> (\<exists>s\<in>set series. \<exists>m. contribution sc s = Some (m, '''', f, v))"
    if "Fields pt f = Some v" for f v
  proof -
    from that have "(entity_fields maps ++
        (map_option Val \<circ> summary_of (host_extra_metrics sc) entity)) f = Some v"
      by (simp only: pt_fields)
    then have "(map_option Val \<circ> summary_of (host_extra_metrics sc) entity) f = Some v
               \<or> entity_fields maps f = Some v"
      by (simp only: map_add_Some_iff) blast
    then show ?thesis
    proof
      assume "entity_fields maps f = Some v"
      from entity_fields_source[OF loop this] show ?thesis by (simp add: init_def)
    qed blast
  qed
  have b: "\<exists>p\<in>set pts. Measurement p = m \<and> Tags p = (Tags pt)(''instance'' \<mapsto> i)
                          \<and> Fields p f \<noteq> None"
    if s: "s \<in> set series" and c: "contribution sc s = Some (m, i, f, v)" and i: "i \<noteq> ''''"
    for s m i f v
  proof -
    from special_field_present[OF loop s c i] obtain fm where
      fm: "map_of (special_fields maps) (m, str_at tags ''name'', i) = Some fm" "fm f \<noteq> None"
      by blast
    then have mem: "((m, str_at tags ''name'', i), fm) \<in> set (special_fields maps)"
      by (simp add: map_of_SomeD)
    let ?p = "special_point maps ((m, str_at tags ''name'', i), fm)"
    have "?p \<in> set pts" using mem by (simp add: pts)
    moreover have "Measurement ?p = m" "Tags ?p = (Tags pt)(''instance'' \<mapsto> i)" "Fields ?p f \<noteq> None"
      using special_point_of_key[OF ok mem] fm(2) by (simp_all add: pt_tags)
    ultimately show ?thesis by blast
  qed
  have c: "\<exists>m i. i \<noteq> '''' \<and> Measurement p = m \<and> Tags p = (Tags pt)(''instance'' \<mapsto> i)
            \<and> (\<forall>f v. Fields p f = Some v \<longrightarrow>
                  (\<exists>s\<in>set series. contribution sc s = Some (m, i, f, v)))"
    if "p \<in> set pts" for p
  proof -
    from that obtain key fm where mem: "(key, fm) \<in> set (special_fields maps)"
      and p: "p = special_point maps (key, fm)"
      by (auto simp: pts)
    have lookup: "map_of (special_fields maps) key = Some fm"
      using dist mem by simp
    note k = special_point_of_key[OF ok mem]
    have "\<exists>s\<in>set series. contribution sc s = Some (fst key, snd (snd key), f, v)"
      if "fm f = Some v" for f v
      using special_fields_source[OF loop lookup that] by (auto simp: init_def)
    then show ?thesis using k by (auto simp: p pt_tags)
  qed
  have d: "distinct (map (\<lambda>p. (Measurement p, Tags p ''instance'')) pts)"
  proof -
    have "map (\<lambda>p. (Measurement p, Tags p ''instance'')) pts
          = map (\<lambda>kv. (fst (fst kv), Some (snd (snd (fst kv))))) (special_fields maps)"
      unfolding pts map_map
    proof (rule map_cong[OF refl])
      fix kv assume "kv \<in> set (special_fields maps)"
      then have "(fst kv, snd kv) \<in> set (special_fields maps)" by simp
      from special_point_of_key(1,2)[OF ok this]
      show "((\<lambda>p. (Measurement p, Tags p ''instance'')) \<circ> special_point maps) kv
            = (fst (fst kv), Some (snd (snd (fst kv))))"
        by simp
    qed
    also have "\<dots> = map (\<lambda>key. (fst key, Some (snd (snd key)))) (map fst (special_fields maps))"
      by (simp add: comp_def)
    finally have eq: "map (\<lambda>p. (Measurement p, Tags p ''instance'')) pts
          = map (\<lambda>key. (fst key, Some (snd (snd key)))) (map fst (special_fields maps))" .
    have "inj_on (\<lambda>key. (fst key, Some (snd (snd key)))) (set (map fst (special_fields maps)))"
    proof (rule inj_onI)
      fix x y
      assume x: "x \<in> set (map fst (special_fields maps))"
        and y: "y \<in> set (map fst (special_fields maps))"
        and e: "(fst x, Some (snd (snd x))) = (fst y, Some (snd (snd y)))"
      have "fst (snd x) = str_at tags ''name''" "fst (snd y) = str_at tags ''name''"
        using ok x y by (auto simp: special_ok_def)
      then show "x = y" using e by (simp add: prod_eq_iff)
    qed
    then show ?thesis using dist by (simp only: eq distinct_map)
  qed
  show ?thesis
  proof (intro conjI)
    show "\<forall>f v. Fields pt f = Some v \<longrightarrow>
            (map_option Val \<circ> summary_of (host_extra_metrics sc) entity) f = Some v
            \<or> (\<exists>s\<in>set series. \<exists>m. contribution sc s = Some (m, [], f, v))"
      using a by (intro allI impI)
    show "\<forall>s\<in>set series. \<forall>m i f v. contribution sc s = Some (m, i, f, v) \<and> i \<noteq> [] \<longrightarrow>
            (\<exists>p\<in>set pts. Measurement p = m \<and> Tags p = (Tags pt)(''instance'' \<mapsto> i)
                          \<and> Fields p f \<noteq> None)"
      using b by (intro ballI allI impI) (elim conjE)
    show "\<forall>p\<in>set pts. \<exists>m i. i \<noteq> [] \<and> Measurement p = m
            \<and> Tags p = (Tags pt)(''instance'' \<mapsto> i)
            \<and> (\<forall>f v. Fields p f = Some v \<longrightarrow>
                  (\<exists>s\<in>set series. contribution sc s = Some (m, i, f, v)))"
      using c by (intro ballI)
    show "distinct (map (\<lambda>p. (Measurement p, Tags p ''instance'')) pts)" by (rule d)
  qed
qed

lemma entity_points_Cons:
  assumes "entity_points sc base = Inr ps"
  shows "\<exists>pt pts. ps = pt # pts"
  using assms by (auto simp: entity_points_def split: BasePerfEntityMetricBase.splits sum.splits)

lemma batch_points_entity:
  assumes "batch_points sc Returnval = Inr batch" and "base \<in> set Returnval"
  shows "\<exists>ps. entity_points sc base = Inr ps \<and> set ps \<subseteq> set batch"
  using assms
proof (induction Returnval arbitrary: batch)
  case Nil
  then show ?case by simp
next
  case (Cons b bs)
  from Cons.prems(1) obtain ps rest where b: "entity_points sc b = Inr ps"
    and rest: "batch_points sc bs = Inr rest" and batch: "batch = ps @ rest"
    by (auto split: sum.splits)
  show ?case
  proof (cases "base = b")
    case True
    then show ?thesis using b batch by auto
  next
    case False
    then have "base \<in> set bs" using Cons.prems(2) by simp
    from Cons.IH[OF rest this] show ?thesis using batch by auto
  qed
qed

text \<open>
  Claim C4. In the batch of a polling cycle (assembled without a panic), every entity of
  the query result has its points in the batch, \<open>pt\<close> the point of the entity and \<open>pts\<close>
  the points of its instances, and:
  every field of \<open>pt\<close> is one of the extra metrics of the host or the value of a series
  with an empty instance, so a value with a non-empty instance is never merged into the
  fields of the entity; every value with a non-empty instance is a field of a point
  whose measurement is its measurement and whose tags are the tags of the entity with
  the tag \<open>instance\<close> added; every point of \<open>pts\<close> is such a point and holds only
  values of its own measurement and instance; and no two points of \<open>pts\<close> have the same
  measurement and instance, so the values of one key are merged into one field map.
  The name tag is the same in all of them, being a tag of the entity, and the maps of
  the instances are made anew for every entity.
\<close>

theorem instance_values_in_own_points:
  assumes "batch_points sc Returnval = Inr batch"
    and "PerfEntityMetric entity series \<in> set Returnval"
  shows "\<exists>pt pts. entity_points sc (PerfEntityMetric entity series) = Inr (pt # pts)
    \<and> set (pt # pts) \<subseteq> set batch
    \<and> (\<forall>f v. Fields pt f = Some v \<longrightarrow>
            (map_option Val \<circ> summary_of (host_extra_metrics sc) entity) f = Some v
            \<or> (\<exists>s\<in>set series. \<exists>m. contribution sc s = Some (m, '''', f, v)))
    \<and> (\<forall>s\<in>set series. \<forall>m i f v. contribution sc s = Some (m, i, f, v) \<and> i \<noteq> '''' \<longrightarrow>
            (\<exists>p\<in>set pts. Measurement p = m \<and> Tags p = (Tags pt)(''instance'' \<mapsto> i)
                          \<and> Fields p f \<noteq> None))
    \<and> (\<forall>p\<in>set pts. \<exists>m i. i \<noteq> '''' \<and> Measurement p = m
            \<and> Tags p = (Tags pt)(''instance'' \<mapsto> i)
            \<and> (\<forall>f v. Fields p f = Some v \<longrightarrow>
                  (\<exists>s\<in>set series. contribution sc s = Some (m, i, f, v))))
    \<and> distinct (map (\<lambda>p. (Measurement p, Tags p ''instance'')) pts)"
proof -
  from batch_points_entity[OF assms] obtain ps where
    ps: "entity_points sc (PerfEntityMetric entity series) = Inr ps" "set ps \<subseteq> set batch"
    by blast
  from entity_points_Cons[OF ps(1)] obtain pt pts where c: "ps = pt # pts" by blast
  have e: "entity_points sc (PerfEntityMetric entity series) = Inr (pt # pts)"
    using ps(1) c by simp
  have b: "set (pt # pts) \<subseteq> set batch" using ps(2) c by simp
  note s = entity_points_separation[OF e]
  show ?thesis
    using e b s
    by (intro exI[of _ pt] exI[of _ pts])
       (rule conjI, assumption, rule conjI, assumption, assumption)
qed

theorem instance_values_in_own_points_witness:
  "batch_points example_scope [PerfEntityMetric example_vm example_series] =
     Inr [\<lparr>Measurement = ''virtualmachine'', Tags = example_tags,
           Fields = [''cpu_usage_average'' \<mapsto> Val 50]\<rparr>,
          \<lparr>Measurement = ''disk'', Tags = example_tags(''instance'' \<mapsto> ''scsi0''),
           Fields = [''disk_usage_average'' \<mapsto> Val 25]\<rparr>,
          \<lparr>Measurement = ''disk'', Tags = example_tags(''instance'' \<mapsto> ''scsi1''),
           Fields = [''disk_usage_average'' \<mapsto> Val 10]\<rparr>]
   \<and> PerfEntityMetric example_vm example_series
       \<in> set [PerfEntityMetric example_vm example_series]
   \<and> distinct (map (\<lambda>p. (Measurement p, Tags p ''instance''))
         [\<lparr>Measurement = ''disk'', Tags = example_tags(''instance'' \<mapsto> ''scsi0''),
           Fields = [''disk_usage_average'' \<mapsto> Val 25]\<rparr>,
          \<lparr>Measurement = ''disk'', Tags = example_tags(''instance'' \<mapsto> ''scsi1''),
           Fields = [''disk_usage_average'' \<mapsto> Val 10]\<rparr>])"
proof -
  have batch: "batch_points example_scope [PerfEntityMetric example_vm example_series] =
     Inr [\<lparr>Measurement = ''virtualmachine'', Tags = example_tags,
           Fields = [''cpu_usage_average'' \<mapsto> Val 50]\<rparr>,
          \<lparr>Measurement = ''disk'', Tags = example_tags(''instance'' \<mapsto> ''scsi0''),
           Fields = [''disk_usage_average'' \<mapsto> Val 25]\<rparr>,
          \<lparr>Measurement = ''disk'', Tags = example_tags(''instance'' \<mapsto> ''scsi1''),
           Fields = [''disk_usage_average'' \<mapsto> Val 10]\<rparr>]"
    by (simp add: example_entity_points)
  have mem: "PerfEntityMetric example_vm example_series
             \<in> set [PerfEntityMetric example_vm example_series]"
    by simp
  from instance_values_in_own_points[OF batch mem] obtain pt pts where
    e: "entity_points example_scope (PerfEntityMetric example_vm example_series) = Inr (pt # pts)"
    and d: "distinct (map (\<lambda>p. (Measurement p, Tags p ''instance'')) pts)"
    by blast
  from e have "pts =
         [\<lparr>Measurement = ''disk'', Tags = example_tags(''instance'' \<mapsto> ''scsi0''),
           Fields = [''disk_usage_average'' \<mapsto> Val 25]\<rparr>,
          \<lparr>Measurement = ''disk'', Tags = example_tags(''instance'' \<mapsto> ''scsi1''),
           Fields = [''disk_usage_average'' \<mapsto> Val 10]\<rparr>]"
    by (simp add: example_entity_points)
  then show ?thesis using batch mem d by (simp only:)
qed

section \<open>The value of one series\<close>

text \<open>
  Claim C5. For a metric name that ends in \<open>.latest\<close> the value is the last sample as it
  is, a negative sample too (\<open>latest([1,2,-1]) = -1\<close>). The samples are indexed at
  \<open>len - 1\<close> without a test: on an empty sample sequence the index is out of range and
  the program panics, so the value exists only for a non-empty sequence.
\<close>

theorem latest_last_sample:
  "(suffix ''.latest'' metricName \<and> samples \<noteq> [] \<longrightarrow>
      series_value metricName samples = Inr (Val (last samples)))
   \<and> (suffix ''.latest'' metricName \<longrightarrow> series_value metricName [] = Inl IndexOutOfRange)
   \<and> (suffix ''.latest'' (metricName_of sc mid) \<longrightarrow>
        serie_step sc tags maps (PerfMetricIntSeries mid []) = Inl IndexOutOfRange)"
  using latest_not_other[of metricName] latest_not_other[of "metricName_of sc mid"]
  by (simp add: series_value_def serie_step_def)

theorem latest_last_sample_witness:
  "suffix ''.latest'' ''disk.used.latest'' \<and> [1, 2, - 1 :: int64] \<noteq> []
   \<and> series_value ''disk.used.latest'' [1, 2, - 1] = Inr (Val (- 1))
   \<and> series_value ''disk.used.latest'' [] = Inl IndexOutOfRange
   \<and> suffix ''.latest'' (metricName_of example_scope \<lparr>CounterId = 4, Instance = ''''\<rparr>)
   \<and> serie_step example_scope example_tags
        \<lparr>entity_fields = Map.empty, special_fields = [], special_tags = Map.empty\<rparr>
        (PerfMetricIntSeries \<lparr>CounterId = 4, Instance = ''''\<rparr> []) = Inl IndexOutOfRange"
  using latest_last_sample[of "''disk.used.latest''" "[1, 2, - 1]" example_scope
          "\<lparr>CounterId = 4, Instance = ''''\<rparr>" example_tags
          "\<lparr>entity_fields = Map.empty, special_fields = [], special_tags = Map.empty\<rparr>"]
  by (simp add: example_names suffix_to_prefix)






section \<open>Properties of \<open>Init\<close> and of the query batch\<close>

lemma foldl_append_char:
  assumes "\<And>a x. G (f a x) = G a @ h x"
  shows "G (foldl f a xs) = G a @ concat (map h xs)"
  by (induction xs arbitrary: a) (simp_all add: assms)

lemma foldl_or_char:
  assumes "\<And>a x. P (f a x) \<longleftrightarrow> P a \<or> Q x"
  shows "P (foldl f a xs) \<longleftrightarrow> P a \<or> (\<exists>x\<in>set xs. Q x)"
  by (induction xs arbitrary: a) (auto simp: assms)

lemma foldl_preserves:
  assumes "\<And>a x. P a \<Longrightarrow> P (f a x)" and "P a"
  shows "P (foldl f a xs)"
  using assms(2) by (induction xs arbitrary: a) (simp_all add: assms(1))

lemma group_metrics_add_metricd:
  "group_metrics t (add_metricd d mtype gs) = group_metrics t gs @ (if mtype = t then [d] else [])"
  by (induction gs) (auto simp: group_metrics_def)

lemma types_add_metricd:
  "t \<in> MetricGroup.ObjectType ` set (add_metricd d mtype gs)
     \<longleftrightarrow> t \<in> MetricGroup.ObjectType ` set gs \<or> mtype = t"
  by (induction gs) auto

lemma distinct_add_metricd:
  "distinct (map MetricGroup.ObjectType gs)
   \<Longrightarrow> distinct (map MetricGroup.ObjectType (add_metricd d mtype gs))"
proof (induction gs)
  case Nil
  then show ?case by simp
next
  case (Cons g gs)
  have "MetricGroup.ObjectType ` set (add_metricd d mtype gs)
        \<subseteq> insert mtype (MetricGroup.ObjectType ` set gs)"
    using types_add_metricd[of _ d mtype gs] by auto
  then show ?case using Cons by auto
qed

lemma group_metrics_Init_metricdef:
  "group_metrics t (Init_metricdef perf metric gs metricdef)
   = group_metrics t gs @ resolved_metricdef t perf metric metricdef"
proof -
  let ?d = "\<lparr>Metric = MetricDef.Metric metricdef, Instances = Instances metricdef,
             Key = PerfCounterInfo.Key perf\<rparr>"
  have "group_metrics t (foldl (\<lambda>gs mtype. add_metricd ?d mtype gs) gs mtypes)
        = group_metrics t gs @ concat (map (\<lambda>mtype. if mtype = t then [?d] else []) mtypes)"
    for mtypes
    by (rule foldl_append_char) (rule group_metrics_add_metricd)
  moreover have "concat (map (\<lambda>mtype. if mtype = t then [?d] else []) mtypes)
                 = map (\<lambda>mtype. ?d) (filter (\<lambda>mtype. mtype = t) mtypes)" for mtypes
    by (induction mtypes) simp_all
  ultimately have "group_metrics t (foldl (\<lambda>gs mtype. add_metricd ?d mtype gs) gs mtypes)
        = group_metrics t gs @ map (\<lambda>mtype. ?d) (filter (\<lambda>mtype. mtype = t) mtypes)"
    for mtypes
    by simp
  note fold = this
  show ?thesis
  proof (cases "MetricDef.Metric metricdef = perf_identifier perf")
    case True
    have "Init_metricdef perf metric gs metricdef
          = foldl (\<lambda>gs mtype. add_metricd ?d mtype gs) gs (Metric.ObjectType metric)"
      unfolding Init_metricdef_def by (rule if_P[OF True])
    moreover have "resolved_metricdef t perf metric metricdef
          = map (\<lambda>mtype. ?d) (filter (\<lambda>mtype. mtype = t) (Metric.ObjectType metric))"
      unfolding resolved_metricdef_def by (rule if_P[OF True])
    ultimately show ?thesis by (simp only: fold)
  next
    case False
    then show ?thesis by (simp add: Init_metricdef_def resolved_metricdef_def)
  qed
qed

lemma group_metrics_Init:
  "group_metrics t (Init gs metrics (Some catalog)) = group_metrics t gs @ resolved t metrics catalog"
proof -
  have m: "group_metrics t (Init_metric perf gs metric)
           = group_metrics t gs @ concat (map (resolved_metricdef t perf metric) (Definition metric))"
    for perf gs metric
    unfolding Init_metric_def by (rule foldl_append_char) (rule group_metrics_Init_metricdef)
  have p: "group_metrics t (Init_perf metrics gs perf)
           = group_metrics t gs @ concat (map (\<lambda>metric.
               concat (map (resolved_metricdef t perf metric) (Definition metric))) metrics)"
    for gs perf
    unfolding Init_perf_def by (rule foldl_append_char) (rule m)
  have "group_metrics t (foldl (Init_perf metrics) gs catalog)
        = group_metrics t gs @ concat (map (\<lambda>perf. concat (map (\<lambda>metric.
               concat (map (resolved_metricdef t perf metric) (Definition metric))) metrics)) catalog)"
    by (rule foldl_append_char) (rule p)
  then show ?thesis
    by (simp add: Init_def resolved_def)
qed

lemma set_resolved:
  "d \<in> set (resolved t metrics catalog) \<longleftrightarrow>
     (\<exists>perf\<in>set catalog. \<exists>metric\<in>set metrics. \<exists>metricdef\<in>set (Definition metric).
        MetricDef.Metric metricdef = perf_identifier perf \<and> t \<in> set (Metric.ObjectType metric)
        \<and> d = \<lparr>Metric = MetricDef.Metric metricdef, Instances = Instances metricdef,
                 Key = PerfCounterInfo.Key perf\<rparr>)"
proof
  assume "d \<in> set (resolved t metrics catalog)"
  then obtain perf metric metricdef where "perf \<in> set catalog" "metric \<in> set metrics"
    "metricdef \<in> set (Definition metric)" "MetricDef.Metric metricdef = perf_identifier perf"
    "t \<in> set (Metric.ObjectType metric)"
    "d = \<lparr>Metric = MetricDef.Metric metricdef, Instances = Instances metricdef,
                 Key = PerfCounterInfo.Key perf\<rparr>"
    by (auto simp: resolved_def resolved_metricdef_def split: if_splits)
  then show "\<exists>perf\<in>set catalog. \<exists>metric\<in>set metrics. \<exists>metricdef\<in>set (Definition metric).
        MetricDef.Metric metricdef = perf_identifier perf \<and> t \<in> set (Metric.ObjectType metric)
        \<and> d = \<lparr>Metric = MetricDef.Metric metricdef, Instances = Instances metricdef,
                 Key = PerfCounterInfo.Key perf\<rparr>"
    by blast
next
  assume "\<exists>perf\<in>set catalog. \<exists>metric\<in>set metrics. \<exists>metricdef\<in>set (Definition metric).
        MetricDef.Metric metricdef = perf_identifier perf \<and> t \<in> set (Metric.ObjectType metric)
        \<and> d = \<lparr>Metric = MetricDef.Metric metricdef, Instances = Instances metricdef,
                 Key = PerfCounterInfo.Key perf\<rparr>"
  then show "d \<in> set (resolved t metrics catalog)"
    by (auto simp: resolved_def resolved_metricdef_def split: if_splits)
qed

lemma types_Init:
  "t \<in> MetricGroup.ObjectType ` set (Init gs metrics (Some catalog))
   \<longleftrightarrow> t \<in> MetricGroup.ObjectType ` set gs \<or> resolved t metrics catalog \<noteq> []"
proof -
  let ?P = "\<lambda>gs. t \<in> MetricGroup.ObjectType ` set gs"
  have d: "?P (Init_metricdef perf metric gs metricdef) \<longleftrightarrow>
           ?P gs \<or> (MetricDef.Metric metricdef = perf_identifier perf \<and> t \<in> set (Metric.ObjectType metric))"
    for perf metric gs metricdef
  proof (cases "MetricDef.Metric metricdef = perf_identifier perf")
    case False
    then show ?thesis by (simp add: Init_metricdef_def)
  next
    case True
    let ?d = "\<lparr>Metric = MetricDef.Metric metricdef, Instances = Instances metricdef,
               Key = PerfCounterInfo.Key perf\<rparr>"
    have "?P (foldl (\<lambda>gs mtype. add_metricd ?d mtype gs) gs mtypes)
          \<longleftrightarrow> ?P gs \<or> (\<exists>mtype\<in>set mtypes. mtype = t)" for mtypes
      by (rule foldl_or_char) (rule types_add_metricd)
    then show ?thesis using True by (auto simp: Init_metricdef_def)
  qed
  have m: "?P (Init_metric perf gs metric) \<longleftrightarrow>
           ?P gs \<or> (\<exists>metricdef\<in>set (Definition metric).
              MetricDef.Metric metricdef = perf_identifier perf \<and> t \<in> set (Metric.ObjectType metric))"
    for perf gs metric
    unfolding Init_metric_def by (rule foldl_or_char) (rule d)
  have p: "?P (Init_perf metrics gs perf) \<longleftrightarrow>
           ?P gs \<or> (\<exists>metric\<in>set metrics. \<exists>metricdef\<in>set (Definition metric).
              MetricDef.Metric metricdef = perf_identifier perf \<and> t \<in> set (Metric.ObjectType metric))"
    for gs perf
    unfolding Init_perf_def by (rule foldl_or_char) (rule m)
  have "?P (foldl (Init_perf metrics) gs catalog) \<longleftrightarrow>
           ?P gs \<or> (\<exists>perf\<in>set catalog. \<exists>metric\<in>set metrics. \<exists>metricdef\<in>set (Definition metric).
              MetricDef.Metric metricdef = perf_identifier perf \<and> t \<in> set (Metric.ObjectType metric))"
    by (rule foldl_or_char) (rule p)
  moreover have "resolved t metrics catalog \<noteq> [] \<longleftrightarrow>
      (\<exists>perf\<in>set catalog. \<exists>metric\<in>set metrics. \<exists>metricdef\<in>set (Definition metric).
              MetricDef.Metric metricdef = perf_identifier perf \<and> t \<in> set (Metric.ObjectType metric))"
  proof -
    have "resolved t metrics catalog \<noteq> [] \<longleftrightarrow> (\<exists>d. d \<in> set (resolved t metrics catalog))"
      by (cases "resolved t metrics catalog") auto
    then show ?thesis unfolding set_resolved by blast
  qed
  ultimately show ?thesis by (simp add: Init_def)
qed

lemma distinct_Init:
  assumes "distinct (map MetricGroup.ObjectType gs)"
  shows "distinct (map MetricGroup.ObjectType (Init gs metrics (Some catalog)))"
proof -
  let ?P = "\<lambda>gs. distinct (map MetricGroup.ObjectType gs)"
  have d: "?P gs \<Longrightarrow> ?P (Init_metricdef perf metric gs metricdef)" for perf metric gs metricdef
    unfolding Init_metricdef_def
    by (auto intro!: foldl_preserves[where P = ?P] distinct_add_metricd)
  have m: "?P gs \<Longrightarrow> ?P (Init_metric perf gs metric)" for perf gs metric
    unfolding Init_metric_def by (rule foldl_preserves[where P = ?P]) (rule d)
  have p: "?P gs \<Longrightarrow> ?P (Init_perf metrics gs perf)" for gs perf
    unfolding Init_perf_def by (rule foldl_preserves[where P = ?P]) (rule m)
  show ?thesis
    unfolding Init_def using assms by (simp add: foldl_preserves[where P = ?P, OF p])
qed

text \<open>
  Claim C7. For every catalog entry whose identifier \<open>groupKey.counterName.rollupType\<close>
  equals the name of a declared metric, a definition with the key of the entry and the
  instance selector of the declaration is appended to the group of each object type of
  the declaration, and the group is created when there is none: the definitions of the
  group of a type after \<open>Init\<close> are those before it followed by \<open>resolved\<close>, whose
  members are exactly these definitions; a type has a group after \<open>Init\<close> when it had
  one or a definition was resolved for it; groups stay one per type. A declared metric
  whose name no catalog entry has adds no definition to any group, and \<open>Init\<close> always
  returns. When the catalog cannot be read the groups are left as they are.
\<close>

theorem Init_resolves_declared_metrics:
  "group_metrics t (Init groups metrics (Some catalog))
     = group_metrics t groups @ resolved t metrics catalog
   \<and> (d \<in> set (resolved t metrics catalog) \<longleftrightarrow>
        (\<exists>perf\<in>set catalog. \<exists>metric\<in>set metrics. \<exists>metricdef\<in>set (Definition metric).
           MetricDef.Metric metricdef = perf_identifier perf
           \<and> t \<in> set (Metric.ObjectType metric)
           \<and> d = \<lparr>Metric = MetricDef.Metric metricdef, Instances = Instances metricdef,
                    Key = PerfCounterInfo.Key perf\<rparr>))
   \<and> (t \<in> MetricGroup.ObjectType ` set (Init groups metrics (Some catalog))
        \<longleftrightarrow> t \<in> MetricGroup.ObjectType ` set groups \<or> resolved t metrics catalog \<noteq> [])
   \<and> (distinct (map MetricGroup.ObjectType groups)
        \<longrightarrow> distinct (map MetricGroup.ObjectType (Init groups metrics (Some catalog))))
   \<and> ((\<forall>perf\<in>set catalog. perf_identifier perf \<noteq> name)
        \<longrightarrow> (\<forall>d'\<in>set (resolved t metrics catalog). MetricDef.Metric d' \<noteq> name))
   \<and> Init groups metrics None = groups"
proof -
  have "MetricDef.Metric d' \<noteq> name"
    if "\<forall>perf\<in>set catalog. perf_identifier perf \<noteq> name"
      and "d' \<in> set (resolved t metrics catalog)" for d'
    using that unfolding set_resolved by auto
  then show ?thesis
    using group_metrics_Init[of t groups metrics catalog] set_resolved[of d t metrics catalog]
      types_Init[of t groups metrics catalog] distinct_Init[of groups metrics catalog]
    by (simp add: Init_def)
qed

theorem Init_resolves_declared_metrics_witness:
  "Init [] example_metrics (Some example_catalog) = example_groups
   \<and> distinct (map MetricGroup.ObjectType ([] :: MetricGroup list))
   \<and> distinct (map MetricGroup.ObjectType (Init [] example_metrics (Some example_catalog)))
   \<and> resolved ''VirtualMachine'' example_metrics example_catalog
       = [\<lparr>Metric = ''cpu.usage.average'', Instances = ''*'', Key = 2\<rparr>]
   \<and> group_metrics ''VirtualMachine'' (Init [] example_metrics (Some example_catalog))
       = [\<lparr>Metric = ''cpu.usage.average'', Instances = ''*'', Key = 2\<rparr>]
   \<and> perf_identifier \<lparr>GroupInfo_Key = ''cpu'', NameInfo_Key = ''usage'',
                        RollupType = ''average'', Key = 2\<rparr> \<noteq> ''net.usage.average''
   \<and> perf_identifier \<lparr>GroupInfo_Key = ''mem'', NameInfo_Key = ''usage'',
                        RollupType = ''average'', Key = 24\<rparr> \<noteq> ''net.usage.average''"
proof -
  have i: "Init [] example_metrics (Some example_catalog) = example_groups"
    by (simp add: Init_def Init_perf_def Init_metric_def Init_metricdef_def perf_identifier_def
          example_metrics_def example_catalog_def example_groups_def)
  have r: "resolved ''VirtualMachine'' example_metrics example_catalog
       = [\<lparr>Metric = ''cpu.usage.average'', Instances = ''*'', Key = 2\<rparr>]"
    by (simp add: resolved_def resolved_metricdef_def perf_identifier_def
          example_metrics_def example_catalog_def)
  have p: "perf_identifier \<lparr>GroupInfo_Key = ''cpu'', NameInfo_Key = ''usage'',
                        RollupType = ''average'', Key = 2\<rparr> \<noteq> ''net.usage.average''"
    "perf_identifier \<lparr>GroupInfo_Key = ''mem'', NameInfo_Key = ''usage'',
                        RollupType = ''average'', Key = 24\<rparr> \<noteq> ''net.usage.average''"
    by (simp_all add: perf_identifier_def)
  show ?thesis
    using Init_resolves_declared_metrics[of "''VirtualMachine''" "[]" example_metrics
            example_catalog "\<lparr>Metric = ''cpu.usage.average'', Instances = ''*'', Key = 2\<rparr>"
            "''net.usage.average''"]
    by (simp add: i r p group_metrics_def)
qed

lemma metricIds_concat:
  "metricIds gs mor =
     concat (map (\<lambda>g. map (\<lambda>metricdef. \<lparr>CounterId = MetricDef.Key metricdef,
                                          Instance = Instances metricdef\<rparr>) (Metrics g))
               (filter (\<lambda>g. MetricGroup.ObjectType g = Type mor) gs))"
  by (induction gs) simp_all

lemma metricIds_none:
  "\<forall>g'\<in>set gs. MetricGroup.ObjectType g' \<noteq> Type mor \<Longrightarrow> metricIds gs mor = []"
  by (induction gs) simp_all

lemma metricIds_one:
  assumes "distinct (map MetricGroup.ObjectType gs)" "g \<in> set gs"
    "MetricGroup.ObjectType g = Type mor"
  shows "metricIds gs mor =
          map (\<lambda>metricdef. \<lparr>CounterId = MetricDef.Key metricdef, Instance = Instances metricdef\<rparr>)
            (Metrics g)"
  using assms
proof (induction gs)
  case Nil
  then show ?case by simp
next
  case (Cons g' gs)
  show ?case
  proof (cases "g' = g")
    case True
    have "\<forall>h\<in>set gs. MetricGroup.ObjectType h \<noteq> Type mor"
      using Cons.prems True by force
    then show ?thesis using metricIds_none[of gs mor] True Cons.prems(3) by simp
  next
    case False
    then have "g \<in> set gs" using Cons.prems(2) by simp
    moreover have "MetricGroup.ObjectType g' \<noteq> Type mor"
      using Cons.prems(1,3) \<open>g \<in> set gs\<close> by force
    ultimately show ?thesis using Cons by simp
  qed
qed

lemma queries_Entity: "map Entity (queries groups now Interval mors) = mors"
  by (induction mors) simp_all

lemma queries_parts:
  "\<forall>q\<in>set (queries groups now Interval mors).
     MetricId q = metricIds groups (Entity q) \<and> StartTime q = now - 1 - Interval
     \<and> EndTime q = now - 1 \<and> IntervalId q = 20"
  by (induction mors) simp_all

lemma queries_filter_Entity:
  "length (filter (\<lambda>q. Entity q = mor) (queries groups now Interval mors))
   = length (filter (\<lambda>m. m = mor) mors)"
  by (induction mors) simp_all

lemma distinct_filter_one:
  "distinct xs \<Longrightarrow> x \<in> set xs \<Longrightarrow> length (filter (\<lambda>y. y = x) xs) = 1"
  by (induction xs) (auto simp: filter_empty_conv)

text \<open>
  Claim C1, as the code has it. \<open>view\<close> holds the references that the container views
  returned, the views having been asked for \<open>objectTypes\<close>. A reference gets a query
  exactly when it is in \<open>view\<close> and is a virtual machine or a host: the queries are those
  of \<open>new_mors\<close>, one for each of its references and in their order, so exactly one for a
  reference that \<open>view\<close> holds once. Every query carries the counter ids of all the groups
  of the type of its reference, each with the instance selector of its definition: those
  of the one group of the type when the groups are one per type. When the views hold
  only references of the types asked for, a reference whose type no group has gets no
  query, and every reference that gets a query has a group of its type.
\<close>

theorem Query_queries_of_view:
  "map Entity (Query_queries groups now Interval view) = new_mors view
   \<and> (mor \<in> Entity ` set (Query_queries groups now Interval view)
        \<longleftrightarrow> mor \<in> set view \<and> (Type mor = ''VirtualMachine'' \<or> Type mor = ''HostSystem''))
   \<and> (distinct view \<and> mor \<in> set view
        \<and> (Type mor = ''VirtualMachine'' \<or> Type mor = ''HostSystem'') \<longrightarrow>
        length (filter (\<lambda>q. Entity q = mor) (Query_queries groups now Interval view)) = 1)
   \<and> (\<forall>q\<in>set (Query_queries groups now Interval view).
        MetricId q = metricIds groups (Entity q) \<and> StartTime q = now - 1 - Interval
        \<and> EndTime q = now - 1 \<and> IntervalId q = 20)
   \<and> metricIds groups mor =
        concat (map (\<lambda>g. map (\<lambda>metricdef. \<lparr>CounterId = MetricDef.Key metricdef,
                                             Instance = Instances metricdef\<rparr>) (Metrics g))
                  (filter (\<lambda>g. MetricGroup.ObjectType g = Type mor) groups))
   \<and> (distinct (map MetricGroup.ObjectType groups) \<and> g \<in> set groups
        \<and> MetricGroup.ObjectType g = Type mor \<longrightarrow>
        metricIds groups mor =
          map (\<lambda>metricdef. \<lparr>CounterId = MetricDef.Key metricdef, Instance = Instances metricdef\<rparr>)
            (Metrics g))
   \<and> ((\<forall>m\<in>set view. Type m \<in> set (objectTypes groups))
        \<and> (\<forall>g'\<in>set groups. MetricGroup.ObjectType g' \<noteq> Type mor) \<longrightarrow>
        mor \<notin> Entity ` set (Query_queries groups now Interval view))
   \<and> ((\<forall>m\<in>set view. Type m \<in> set (objectTypes groups))
        \<and> mor \<in> Entity ` set (Query_queries groups now Interval view) \<longrightarrow>
        (\<exists>g'\<in>set groups. MetricGroup.ObjectType g' = Type mor))"
proof -
  have e: "map Entity (Query_queries groups now Interval view) = new_mors view"
    by (simp add: Query_queries_def queries_Entity)
  have "Entity ` set (Query_queries groups now Interval view) = set (new_mors view)"
    using e by (metis set_map)
  then have i: "mor \<in> Entity ` set (Query_queries groups now Interval view)
        \<longleftrightarrow> mor \<in> set view \<and> (Type mor = ''VirtualMachine'' \<or> Type mor = ''HostSystem'')"
    by (simp add: new_mors_def)
  have o: "length (filter (\<lambda>q. Entity q = mor) (Query_queries groups now Interval view)) = 1"
    if "distinct view" "mor \<in> set view" "Type mor = ''VirtualMachine'' \<or> Type mor = ''HostSystem''"
  proof -
    have "distinct (new_mors view)" "mor \<in> set (new_mors view)"
      using that by (simp_all add: new_mors_def)
    then show ?thesis
      by (simp add: Query_queries_def queries_filter_Entity distinct_filter_one)
  qed
  have q: "\<forall>q\<in>set (Query_queries groups now Interval view).
        MetricId q = metricIds groups (Entity q) \<and> StartTime q = now - 1 - Interval
        \<and> EndTime q = now - 1 \<and> IntervalId q = 20"
    unfolding Query_queries_def by (rule queries_parts)
  have g: "\<exists>g'\<in>set groups. MetricGroup.ObjectType g' = Type mor"
    if "\<forall>m\<in>set view. Type m \<in> set (objectTypes groups)"
      "mor \<in> Entity ` set (Query_queries groups now Interval view)"
  proof -
    have "mor \<in> set view" "Type mor = ''VirtualMachine'' \<or> Type mor = ''HostSystem''"
      using that(2) i by simp_all
    then have "Type mor \<in> set (objectTypes groups)" "Type mor \<noteq> ''ClusterComputeResource''"
      using that(1) by auto
    then show ?thesis by (auto simp: objectTypes_def)
  qed
  have s: "mor \<notin> Entity ` set (Query_queries groups now Interval view)"
    if "\<forall>m\<in>set view. Type m \<in> set (objectTypes groups)"
      "\<forall>g'\<in>set groups. MetricGroup.ObjectType g' \<noteq> Type mor"
    using g that by blast
  show ?thesis
    apply (intro conjI impI)
           apply (rule e)
          apply (rule i)
         apply (rule o; simp)
        apply (rule q)
       apply (rule metricIds_concat)
      apply (rule metricIds_one; simp)
     apply (rule s; simp)
    apply (rule g; simp)
    done
qed

theorem Query_queries_of_view_witness:
  "distinct [example_vm, example_cluster]
   \<and> example_vm \<in> set [example_vm, example_cluster]
   \<and> Type example_vm = ''VirtualMachine''
   \<and> Type example_vm \<in> set (objectTypes example_groups)
   \<and> Type example_cluster \<in> set (objectTypes example_groups)
   \<and> distinct (map MetricGroup.ObjectType example_groups)
   \<and> example_groups ! 0 \<in> set example_groups
   \<and> MetricGroup.ObjectType (example_groups ! 0) = Type example_vm
   \<and> map MetricGroup.ObjectType example_groups = [''VirtualMachine'', ''HostSystem'']
   \<and> Type example_cluster \<notin> set (map MetricGroup.ObjectType example_groups)
   \<and> Query_queries example_groups 100 20 [example_vm, example_cluster]
       = [\<lparr>Entity = example_vm, StartTime = 79, EndTime = 99,
           MetricId = [\<lparr>CounterId = 2, Instance = ''*''\<rparr>], IntervalId = 20\<rparr>]
   \<and> example_vm \<in> Entity ` set (Query_queries example_groups 100 20 [example_vm, example_cluster])
   \<and> example_cluster \<notin> Entity ` set (Query_queries example_groups 100 20 [example_vm, example_cluster])
   \<and> metricIds example_groups example_vm = [\<lparr>CounterId = 2, Instance = ''*''\<rparr>]"
  using Query_queries_of_view[of example_groups 100 20 "[example_vm, example_cluster]"
          example_vm "example_groups ! 0"]
        Query_queries_of_view[of example_groups 100 20 "[example_vm, example_cluster]"
          example_cluster "example_groups ! 0"]
  by (simp add: example_groups_def example_vm_def example_cluster_def objectTypes_def
        Query_queries_def new_mors_def)

text \<open>
  The claim C1 as it is written fails in its second half: a reference whose type has a
  group does not always get a query. The views are asked for datastores as soon as a
  group has that type, and a datastore is then left out when the references are sorted,
  so no query is built for it.
\<close>

theorem Query_queries_datastore_counterexample:
  "example_datastore_group \<in> set [example_datastore_group]
   \<and> MetricGroup.ObjectType example_datastore_group = Type example_datastore
   \<and> Type example_datastore \<in> set (objectTypes [example_datastore_group])
   \<and> Query_queries [example_datastore_group] 100 20 [example_datastore] = []
   \<and> example_datastore \<notin> Entity ` set (Query_queries [example_datastore_group] 100 20 [example_datastore])"
  by (simp add: example_datastore_group_def example_datastore_def objectTypes_def
        Query_queries_def new_mors_def)

end
